theory Spec2Isabelle
  imports Complex_Main "HOL-Library.Log_Nat"
begin

section \<open>Python numbers used by process_images\<close>

text \<open>
  Python integers are unbounded and are modelled by \<^typ>\<open>int\<close>; \<open>//\<close> and \<open>%\<close> are
  floor division and its remainder, which is what \<open>div\<close> and \<open>mod\<close> on \<^typ>\<open>int\<close> are.

  The source uses true division \<open>/\<close> twice (\<open>max_width / w\<close> and
  \<open>len(sheet_images) / columns\<close>), which yields an IEEE 754 binary64 float.  A finite
  double is modelled by the rational number it denotes.  \<open>fl\<close> rounds a rational to
  the nearest double, ties to even: 53 significant bits for a normal number, the fixed
  quantum \<open>2 ^ -1074\<close> below \<open>2 ^ -1022\<close>.  Python's \<open>-0.0\<close> is identified with \<open>0\<close>;
  \<open>int\<close> and \<open>math.ceil\<close> map both to \<open>0\<close>.
\<close>

datatype py_error =
    ZeroDivisionError | OverflowError | ValueError | OSError | MemoryError | SystemError

definition pow2 :: "int \<Rightarrow> rat" where
  "pow2 e = (if 0 \<le> e then 2 ^ nat e else 1 / 2 ^ nat (- e))"

definition ilog2 :: "rat \<Rightarrow> int" where
  \<comment> \<open>\<open>\<lfloor>log\<^sub>2 \<bar>q\<bar>\<rfloor>\<close> for \<open>q \<noteq> 0\<close>\<close>
  "ilog2 q =
     (let (a, b) = quotient_of \<bar>q\<bar>;
          d = bitlen a - bitlen b
      in if pow2 d \<le> \<bar>q\<bar> then d else d - 1)"

definition round_half_even :: "rat \<Rightarrow> int" where
  "round_half_even x =
     (let f = \<lfloor>x\<rfloor>; d = x - of_int f
      in if d < 1 / 2 then f
         else if 1 / 2 < d then f + 1
         else if even f then f else f + 1)"

definition fl :: "rat \<Rightarrow> rat" where
  "fl q =
     (if q = 0 then 0
      else let e = max (ilog2 q) (- 1022);
               u = pow2 (e - 52)
           in of_int (round_half_even (q / u)) * u)"

text \<open>The values of a Python float: a finite double or an infinity.  No operation of
  the source can produce a NaN: its only float operations are a division of two
  integers, which raises instead of returning an infinity, and one product of two
  finite doubles.\<close>

datatype double = Finite rat | Infinite

definition overflows :: "rat \<Rightarrow> bool" where
  "overflows r \<longleftrightarrow> 2 ^ 1024 \<le> \<bar>r\<bar>"

definition int_true_div :: "int \<Rightarrow> int \<Rightarrow> py_error + rat" where
  \<comment> \<open>\<open>a / b\<close> on two Python ints: correctly rounded; raises on a zero divisor and on
      a quotient too large for a float\<close>
  "int_true_div a b =
     (if b = 0 then Inl ZeroDivisionError
      else let r = fl (of_int a / of_int b)
           in if overflows r then Inl OverflowError else Inr r)"

definition float_of_int :: "int \<Rightarrow> py_error + rat" where
  \<comment> \<open>the conversion of the int operand in \<open>h * ratio\<close>\<close>
  "float_of_int n =
     (let r = fl (of_int n) in if overflows r then Inl OverflowError else Inr r)"

definition float_mul :: "rat \<Rightarrow> rat \<Rightarrow> double" where
  \<comment> \<open>float times float: an overflow gives an infinity, no exception\<close>
  "float_mul x y = (let r = fl (x * y) in if overflows r then Infinite else Finite r)"

definition int_mul_float :: "int \<Rightarrow> rat \<Rightarrow> py_error + double" where
  \<comment> \<open>\<open>h * ratio\<close> with \<open>h\<close> an int and \<open>ratio\<close> a float\<close>
  "int_mul_float h x =
     (case float_of_int h of Inl e \<Rightarrow> Inl e | Inr hf \<Rightarrow> Inr (float_mul hf x))"

definition py_int :: "double \<Rightarrow> py_error + int" where
  \<comment> \<open>\<open>int(x)\<close> on a float: truncation towards zero\<close>
  "py_int x =
     (case x of
        Infinite \<Rightarrow> Inl OverflowError
      | Finite r \<Rightarrow> Inr (if 0 \<le> r then \<lfloor>r\<rfloor> else \<lceil>r\<rceil>))"

definition math_ceil :: "rat \<Rightarrow> int" where
  "math_ceil r = \<lceil>r\<rceil>"


section \<open>The imaging library as the source calls it\<close>

text \<open>
  An image value records which library calls produced it and with which arguments, so
  that a tile or a sheet can be compared with the calls the source makes.  \<open>Opened\<close> is
  what \<open>Image.open\<close> returns: the mode and the size come from the file's header, the
  pixel data is read lazily and reading it may still fail (the last field).
\<close>

type_synonym rgba = "int \<times> int \<times> int \<times> int"

datatype image =
    Opened string int int "py_error option"
  | Converted image string
  | Resized image int int
  | Cropped image int int int int
  | New_image string int int rgba
  | Pasted image image int int image

fun mode :: "image \<Rightarrow> string" where
  "mode (Opened m w h d) = m"
| "mode (Converted img m) = m"
| "mode (Resized img w h) = mode img"
| "mode (Cropped img l u r b) = mode img"
| "mode (New_image m w h c) = m"
| "mode (Pasted sheet img x y msk) = mode sheet"

fun img_size :: "image \<Rightarrow> int \<times> int" where
  "img_size (Opened m w h d) = (w, h)"
| "img_size (Converted img m) = img_size img"
| "img_size (Resized img w h) = (w, h)"
| "img_size (Cropped img l u r b) = (r - l, b - u)"
| "img_size (New_image m w h c) = (w, h)"
| "img_size (Pasted sheet img x y msk) = img_size sheet"

fun load :: "image \<Rightarrow> py_error option" where
  "load (Opened m w h d) = d"
| "load img = None"

definition convert :: "image \<Rightarrow> string \<Rightarrow> py_error + image" where
  "convert img m = (case load img of Some e \<Rightarrow> Inl e | None \<Rightarrow> Inr (Converted img m))"

definition resize :: "image \<Rightarrow> int \<times> int \<Rightarrow> py_error + image" where
  \<comment> \<open>the resampling filter does not change the size of the result and is left out\<close>
  "resize img sz =
     (case load img of
        Some e \<Rightarrow> Inl e
      | None \<Rightarrow>
          if img_size img = sz then Inr img
          else if fst sz < 1 \<or> snd sz < 1 then Inl ValueError
          else Inr (Resized img (fst sz) (snd sz)))"

definition crop :: "image \<Rightarrow> int \<times> int \<times> int \<times> int \<Rightarrow> py_error + image" where
  "crop img box =
     (case box of (left, upper, right, lower) \<Rightarrow>
        if right < left \<or> lower < upper then Inl ValueError
        else (case load img of
                Some e \<Rightarrow> Inl e
              | None \<Rightarrow> Inr (Cropped img left upper right lower)))"

text \<open>
  \<open>Image.new\<close> rejects a negative side, then hands the size to C code that takes each
  side as a C \<open>int\<close>, refuses a width whose line of four-byte pixels could overflow an
  \<open>int\<close>, and allocates the pixel buffer.  Whether the buffer can be allocated depends on
  the machine; \<open>alloc w h\<close> says that a \<open>w \<times> h\<close> buffer can.
\<close>

definition INT_MAX :: int where
  "INT_MAX = 2 ^ 31 - 1"

definition Image_new ::
  "(int \<Rightarrow> int \<Rightarrow> bool) \<Rightarrow> string \<Rightarrow> int \<times> int \<Rightarrow> rgba \<Rightarrow> py_error + image" where
  "Image_new alloc m sz color =
     (if fst sz < 0 \<or> snd sz < 0 then Inl ValueError
      else if INT_MAX < fst sz \<or> INT_MAX < snd sz then Inl OverflowError
      else if INT_MAX div 4 - 1 < fst sz then Inl MemoryError
      else if \<not> alloc (fst sz) (snd sz) then Inl MemoryError
      else Inr (New_image m (fst sz) (snd sz) color))"

definition paste :: "image \<Rightarrow> image \<Rightarrow> int \<times> int \<Rightarrow> image \<Rightarrow> image" where
  \<comment> \<open>\<open>sheet.paste(img, (x, y), mask)\<close> changes the sheet in place; the model returns it\<close>
  "paste sheet img pos msk = Pasted sheet img (fst pos) (snd pos) msk"

section \<open>process_images\<close>

record uploaded_file =
  name :: string
  content :: "py_error + image"

definition Image_open :: "uploaded_file \<Rightarrow> py_error + image" where
  "Image_open f = content f"

record params =
  crop_width :: int
  crop_height :: int
  columns :: int
  rows :: int
  max_width :: int
  x_offset :: int

text \<open>The three kinds of message the source shows: \<open>st.info\<close> (name, old and new size),
  \<open>st.warning\<close> (name, size, crop size) and \<open>st.error\<close> (name, exception).\<close>

datatype diag =
    Info string int int int int
  | Warning string int int int int
  | Error string py_error

definition auto_resize ::
  "params \<Rightarrow> string \<Rightarrow> image \<Rightarrow> diag list \<times> (py_error + image \<times> int \<times> int)" where
  \<comment> \<open>lines 27 to 37\<close>
  "auto_resize p nm img =
     (let (w, h) = img_size img
      in if w > max_width p then
           (case int_true_div (max_width p) w of
              Inl e \<Rightarrow> ([], Inl e)
            | Inr ratio \<Rightarrow>
                let new_width = max_width p
                in (case int_mul_float h ratio of
                      Inl e \<Rightarrow> ([], Inl e)
                    | Inr hr \<Rightarrow>
                        (case py_int hr of
                           Inl e \<Rightarrow> ([], Inl e)
                         | Inr new_height \<Rightarrow>
                             (case resize img (new_width, new_height) of
                                Inl e \<Rightarrow> ([], Inl e)
                              | Inr img' \<Rightarrow>
                                  ([Info nm w h new_width new_height],
                                   Inr (img', new_width, new_height))))))
         else ([], Inr (img, w, h)))"

definition load_image ::
  "params \<Rightarrow> uploaded_file \<Rightarrow> diag list \<times> (py_error + image \<times> int \<times> int)" where
  \<comment> \<open>lines 22 to 37: the image and the size \<open>w, h\<close> the crop is computed from\<close>
  "load_image p f =
     (case Image_open f of
        Inl e \<Rightarrow> ([], Inl e)
      | Inr img \<Rightarrow>
          (case (if mode img \<noteq> ''RGBA'' then convert img ''RGBA'' else Inr img) of
             Inl e \<Rightarrow> ([], Inl e)
           | Inr img' \<Rightarrow> auto_resize p (name f) img'))"

definition crop_box :: "params \<Rightarrow> int \<Rightarrow> int \<times> int \<times> int \<times> int" where
  \<comment> \<open>lines 39 to 43\<close>
  "crop_box p w =
     (let center_x = w div 2;
          left = center_x - crop_width p div 2 + x_offset p;
          upper = 20;
          right = left + crop_width p;
          lower = upper + crop_height p
      in (left, upper, right, lower))"

definition too_small :: "params \<Rightarrow> int \<Rightarrow> int \<Rightarrow> bool" where
  \<comment> \<open>the test of line 46\<close>
  "too_small p w h =
     (case crop_box p w of (left, upper, right, lower) \<Rightarrow> left < 0 \<or> right > w \<or> lower > h)"

definition crop_image ::
  "params \<Rightarrow> uploaded_file \<Rightarrow> diag list \<times> (py_error + image option)" where
  \<comment> \<open>the body of the \<open>try\<close>: \<open>Inr None\<close> is the \<open>continue\<close> of line 48\<close>
  "crop_image p f =
     (case load_image p f of
        (shown, Inl e) \<Rightarrow> (shown, Inl e)
      | (shown, Inr (img, w, h)) \<Rightarrow>
          if too_small p w h then
            (shown @ [Warning (name f) w h (crop_width p) (crop_height p)], Inr None)
          else (case crop img (crop_box p w) of
                  Inl e \<Rightarrow> (shown, Inl e)
                | Inr cropped \<Rightarrow> (shown, Inr (Some cropped))))"

definition process_file :: "params \<Rightarrow> uploaded_file \<Rightarrow> diag list \<times> image option" where
  \<comment> \<open>one iteration of the loop of line 20, with its \<open>except Exception\<close>\<close>
  "process_file p f =
     (case crop_image p f of
        (shown, Inl e) \<Rightarrow> (shown @ [Error (name f) e], None)
      | (shown, Inr r) \<Rightarrow> (shown, r))"

fun crop_all ::
  "params \<Rightarrow> uploaded_file list \<Rightarrow> diag list \<Rightarrow> image list \<Rightarrow> diag list \<times> image list" where
  "crop_all p [] shown cropped_images = (shown, cropped_images)"
| "crop_all p (uploaded_file # rest) shown cropped_images =
     (case process_file p uploaded_file of
        (msgs, None) \<Rightarrow> crop_all p rest (shown @ msgs) cropped_images
      | (msgs, Some cropped) \<Rightarrow> crop_all p rest (shown @ msgs) (cropped_images @ [cropped]))"

fun paste_tiles :: "params \<Rightarrow> image \<Rightarrow> int \<Rightarrow> image list \<Rightarrow> image" where
  \<comment> \<open>lines 73 to 76; reached only when \<open>columns \<noteq> 0\<close>, line 65 raises otherwise\<close>
  "paste_tiles p sheet index [] = sheet"
| "paste_tiles p sheet index (img # rest) =
     (let x = (index mod columns p) * crop_width p;
          y = (index div columns p) * crop_height p
      in paste_tiles p (paste sheet img (x, y) img) (index + 1) rest)"

definition digit_char :: "nat \<Rightarrow> char" where
  "digit_char d = ''0123456789'' ! d"

function decimal :: "nat \<Rightarrow> string" where
  "decimal n = (if n < 10 then [digit_char n] else decimal (n div 10) @ [digit_char (n mod 10)])"
  by pat_completeness auto
termination
  by (relation "measure id") auto

declare decimal.simps [simp del]

definition format_02d :: "int \<Rightarrow> string" where
  \<comment> \<open>the format specification \<open>02d\<close>: the sign counts towards the width\<close>
  "format_02d n =
     (if n < 0 then ''-'' @ decimal (nat (- n))
      else let s = decimal (nat n) in if length s < 2 then ''0'' @ s else s)"

definition sheet_filename :: "int \<Rightarrow> string" where
  \<comment> \<open>lines 80 to 83\<close>
  "sheet_filename sheet_number =
     (if sheet_number = 1 then ''Emo_sheet.png''
      else ''Emo_sheet_'' @ format_02d sheet_number @ ''.png'')"

definition make_sheet ::
  "(int \<Rightarrow> int \<Rightarrow> bool) \<Rightarrow> params \<Rightarrow> image list \<Rightarrow> int \<Rightarrow> py_error + image \<times> string" where
  \<comment> \<open>the body of the loop of line 61\<close>
  "make_sheet alloc p cropped_images sheet_index =
     (let max_images_per_sheet = columns p * rows p;
          sheet_images = take (nat max_images_per_sheet) (drop (nat sheet_index) cropped_images)
      in case int_true_div (int (length sheet_images)) (columns p) of
           Inl e \<Rightarrow> Inl e
         | Inr q \<Rightarrow>
             let actual_rows = math_ceil q;
                 sheet_width = crop_width p * columns p;
                 sheet_height = crop_height p * actual_rows
             in (case Image_new alloc ''RGBA'' (sheet_width, sheet_height) (0, 0, 0, 0) of
                   Inl e \<Rightarrow> Inl e
                 | Inr sheet \<Rightarrow>
                     let sheet_number = sheet_index div max_images_per_sheet + 1
                     in Inr (paste_tiles p sheet 0 sheet_images, sheet_filename sheet_number)))"

function sheets_from ::
  "(int \<Rightarrow> int \<Rightarrow> bool) \<Rightarrow> params \<Rightarrow> image list \<Rightarrow> int
     \<Rightarrow> py_error + (image \<times> string) list" where
  \<comment> \<open>\<open>range(0, total_images, max_images_per_sheet)\<close> from \<open>sheet_index\<close> on, for a
      positive step; an exception in one sheet ends the loop\<close>
  "sheets_from alloc p cropped_images sheet_index =
     (if 0 < columns p * rows p \<and> sheet_index < int (length cropped_images) then
        (case make_sheet alloc p cropped_images sheet_index of
           Inl e \<Rightarrow> Inl e
         | Inr s \<Rightarrow>
             (case sheets_from alloc p cropped_images (sheet_index + columns p * rows p) of
                Inl e \<Rightarrow> Inl e
              | Inr sheets \<Rightarrow> Inr (s # sheets)))
      else Inr [])"
  by pat_completeness auto
termination
  by (relation "measure (\<lambda>(alloc, p, cropped_images, sheet_index).
        nat (int (length cropped_images) - sheet_index))") auto

declare sheets_from.simps [simp del]

definition process_images ::
  "(int \<Rightarrow> int \<Rightarrow> bool) \<Rightarrow> params \<Rightarrow> uploaded_file list
     \<Rightarrow> diag list \<times> (py_error + (image \<times> string) list)" where
  \<comment> \<open>the messages shown, and the sheets returned or the exception raised; \<open>range\<close>
      raises on a zero step and is empty on a negative one; \<open>alloc\<close> is the allocator
      \<open>Image.new\<close> meets at line 70\<close>
  "process_images alloc p uploaded_files =
     (case crop_all p uploaded_files [] [] of
        (shown, cropped_images) \<Rightarrow>
          (shown, if columns p * rows p = 0 then Inl ValueError
                else sheets_from alloc p cropped_images 0))"

section \<open>create_zip_file\<close>

text \<open>
  \<open>sheet.save(img_buffer, format='PNG')\<close> followed by \<open>img_buffer.getvalue()\<close>.  The
  bytes are modelled by what they encode: \<open>PNG img\<close> is the PNG file holding the pixels
  of \<open>img\<close> in the mode of \<open>img\<close>.  The encoder reads the pixel data, writes the modes
  with at most eight bits per channel as they are, writes the integer modes as 16-bit
  grey, refuses every other mode, and cannot write an image with an empty side.
\<close>

datatype png_bytes = PNG image

definition save_png :: "image \<Rightarrow> py_error + png_bytes" where
  "save_png img =
     (case load img of
        Some e \<Rightarrow> Inl e
      | None \<Rightarrow>
          if mode img \<in> set [''1'', ''L'', ''LA'', ''P'', ''RGB'', ''RGBA''] then
            (if fst (img_size img) \<le> 0 \<or> snd (img_size img) \<le> 0 then Inl SystemError
             else Inr (PNG img))
          else if mode img \<in> set [''I'', ''I;16'', ''I;16B''] then
            (if fst (img_size img) \<le> 0 \<or> snd (img_size img) \<le> 0 then Inl SystemError
             else Inr (PNG (Converted img ''I;16B'')))
          else Inl OSError)"

text \<open>
  The archive is modelled by its entries in the order they are written, each a name and
  the bytes stored under it.  \<open>zip_file.writestr(filename, data)\<close> names the entry by
  \<open>filename\<close> cut at its first NUL character, with the path separator \<open>os.sep\<close> of the
  platform replaced by \<open>/\<close>.
\<close>

definition entry_name :: "char \<Rightarrow> string \<Rightarrow> string" where
  "entry_name os_sep filename =
     (let cut = takeWhile (\<lambda>c. c \<noteq> CHR 0x00) filename
      in if os_sep \<noteq> CHR ''/'' \<and> os_sep \<in> set cut
         then map (\<lambda>c. if c = os_sep then CHR ''/'' else c) cut
         else cut)"

fun write_entries ::
  "char \<Rightarrow> (string \<times> png_bytes) list \<Rightarrow> (image \<times> string) list
     \<Rightarrow> py_error + (string \<times> png_bytes) list" where
  "write_entries os_sep zip_file [] = Inr zip_file"
| "write_entries os_sep zip_file ((sheet, filename) # rest) =
     (case save_png sheet of
        Inl e \<Rightarrow> Inl e
      | Inr data \<Rightarrow>
          write_entries os_sep (zip_file @ [(entry_name os_sep filename, data)]) rest)"

definition create_zip_file ::
  "char \<Rightarrow> (image \<times> string) list \<Rightarrow> py_error + (string \<times> png_bytes) list" where
  "create_zip_file os_sep sheets = write_entries os_sep [] sheets"

section \<open>Observations used to state the properties\<close>

text \<open>The default arguments of \<open>process_images\<close> (line 10).\<close>

definition default_params :: params where
  "default_params =
     \<lparr>crop_width = 144, crop_height = 144, columns = 4, rows = 2, max_width = 400, x_offset = 0\<rparr>"

text \<open>What was pasted on a sheet, in the order of the calls, and what the sheet was
  before the first call.\<close>

fun pastes :: "image \<Rightarrow> (image \<times> int \<times> int) list" where
  "pastes (Pasted sheet img x y msk) = pastes sheet @ [(img, x, y)]"
| "pastes img = []"

fun canvas :: "image \<Rightarrow> image" where
  "canvas (Pasted sheet img x y msk) = canvas sheet"
| "canvas img = img"


text \<open>The number a string of decimal digits denotes (leading zeros allowed).\<close>

definition digit_value :: "char \<Rightarrow> nat" where
  "digit_value c = of_char c - 48"

definition decimal_value :: "string \<Rightarrow> nat" where
  "decimal_value s = foldl (\<lambda>v c. 10 * v + digit_value c) 0 s"

definition is_digit :: "char \<Rightarrow> bool" where
  "is_digit c \<longleftrightarrow> c \<in> set ''0123456789''"

section \<open>Rounding to the nearest double\<close>

lemma pow2_powi: "pow2 e = power_int 2 e"
  by (simp add: pow2_def power_int_def field_simps)

lemma pow2_pos: "0 < pow2 e"
  by (simp add: pow2_powi)

lemma pow2_add: "pow2 (a + b) = pow2 a * pow2 b"
  by (simp add: pow2_powi power_int_add)

lemma pow2_mono: "a \<le> b \<Longrightarrow> pow2 a \<le> pow2 b"
  by (simp add: pow2_powi power_int_increasing)

lemma pow2_strict_mono: "a < b \<Longrightarrow> pow2 a < pow2 b"
  by (simp add: pow2_powi power_int_strict_increasing)

lemma pow2_less_imp: "pow2 a < pow2 b \<Longrightarrow> a < b"
  using pow2_mono[of b a] by (cases "a < b") auto

lemma pow2_nat: "pow2 (int n) = 2 ^ n"
  by (simp add: pow2_def)

lemma bitlen_pow2_bounds:
  assumes "0 < a"
  shows "pow2 (bitlen a - 1) \<le> of_int a" and "of_int a < pow2 (bitlen a)"
proof -
  from bitlen_bounds[OF assms] have lo: "2 ^ nat (bitlen a - 1) \<le> a" and hi: "a < 2 ^ nat (bitlen a)"
    by auto
  have b1: "1 \<le> bitlen a" using assms by (simp add: bitlen_alt_def)
  have "(of_int (2 ^ nat (bitlen a - 1)) :: rat) \<le> of_int a" using lo by (simp only: of_int_le_iff)
  then show "pow2 (bitlen a - 1) \<le> of_int a" using b1 by (simp add: pow2_def)
  have "(of_int a :: rat) < of_int (2 ^ nat (bitlen a))" using hi by (simp only: of_int_less_iff)
  then show "of_int a < pow2 (bitlen a)" using b1 by (simp add: pow2_def)
qed

lemma ilog2_bounds:
  assumes "q \<noteq> 0"
  shows "pow2 (ilog2 q) \<le> \<bar>q\<bar>" and "\<bar>q\<bar> < pow2 (ilog2 q + 1)"
proof -
  obtain a b where ab: "quotient_of \<bar>q\<bar> = (a, b)" by (cases "quotient_of \<bar>q\<bar>")
  have bpos: "0 < b" using ab quotient_of_denom_pos by blast
  have q: "\<bar>q\<bar> = of_int a / of_int b" using ab quotient_of_div by blast
  have "0 < \<bar>q\<bar>" using assms by simp
  then have apos: "0 < a" using q bpos by (simp add: zero_less_divide_iff)
  define d where "d = bitlen a - bitlen b"
  have il: "ilog2 q = (if pow2 d \<le> \<bar>q\<bar> then d else d - 1)"
    by (simp add: ilog2_def ab d_def Let_def)
  have B: "(of_int b :: rat) > 0" using bpos by simp
  have lo: "pow2 (d - 1) \<le> \<bar>q\<bar>"
  proof -
    have "pow2 (d - 1) * of_int b \<le> pow2 (d - 1) * pow2 (bitlen b)"
      using bitlen_pow2_bounds(2)[OF bpos] pow2_pos[of "d - 1"] by (simp add: less_imp_le)
    also have "\<dots> = pow2 (bitlen a - 1)" by (simp add: pow2_add[symmetric] d_def)
    also have "\<dots> \<le> of_int a" by (rule bitlen_pow2_bounds(1)[OF apos])
    finally show ?thesis using B by (simp add: q pos_le_divide_eq)
  qed
  have hi: "\<bar>q\<bar> < pow2 (d + 1)"
  proof -
    have "of_int a < pow2 (bitlen a)" by (rule bitlen_pow2_bounds(2)[OF apos])
    also have "\<dots> = pow2 (d + 1) * pow2 (bitlen b - 1)" by (simp add: pow2_add[symmetric] d_def)
    also have "\<dots> \<le> pow2 (d + 1) * of_int b"
      using bitlen_pow2_bounds(1)[OF bpos] pow2_pos[of "d + 1"] by simp
    finally show ?thesis using B by (simp add: q pos_divide_less_eq)
  qed
  show "pow2 (ilog2 q) \<le> \<bar>q\<bar>" using lo by (simp add: il)
  show "\<bar>q\<bar> < pow2 (ilog2 q + 1)" using hi by (auto simp add: il not_le)
qed

lemma round_half_even_error: "\<bar>of_int (round_half_even x) - x\<bar> \<le> 1 / 2"
proof -
  have "of_int \<lfloor>x\<rfloor> \<le> x" "x < of_int \<lfloor>x\<rfloor> + 1" by linarith+
  then show ?thesis
    by (auto simp add: round_half_even_def Let_def abs_le_iff)
qed

lemma round_half_even_of_int: "round_half_even (of_int k) = k"
  by (simp add: round_half_even_def)

lemma round_half_even_nonneg: "0 \<le> x \<Longrightarrow> 0 \<le> round_half_even x"
  by (auto simp add: round_half_even_def Let_def)

text \<open>The distance between a rational and the double nearest to it.\<close>

lemma fl_error: "\<bar>fl q - q\<bar> \<le> pow2 (max (ilog2 q) (- 1022) - 53)"
proof (cases "q = 0")
  case True
  then show ?thesis using pow2_pos[of "max (ilog2 q) (- 1022) - 53"] by (simp add: fl_def)
next
  case False
  define u where "u = pow2 (max (ilog2 q) (- 1022) - 52)"
  have upos: "0 < u" by (simp add: u_def pow2_pos)
  have flq: "fl q = of_int (round_half_even (q / u)) * u"
    using False by (simp add: fl_def Let_def u_def)
  have "fl q - q = (of_int (round_half_even (q / u)) - q / u) * u"
    using upos by (simp add: flq algebra_simps)
  then have "\<bar>fl q - q\<bar> = \<bar>of_int (round_half_even (q / u)) - q / u\<bar> * u"
    using upos by (simp add: abs_mult)
  also have "\<dots> \<le> (1 / 2) * u"
    using round_half_even_error[of "q / u"] upos by (simp add: mult_right_mono)
  also have "\<dots> = pow2 (max (ilog2 q) (- 1022) - 53)"
  proof -
    have "pow2 (max (ilog2 q) (- 1022) - 52) = pow2 (max (ilog2 q) (- 1022) - 53) * pow2 1"
      by (simp add: pow2_add[symmetric])
    then show ?thesis by (simp add: u_def pow2_def)
  qed
  finally show ?thesis .
qed

lemma fl_relative_error:
  assumes "pow2 (- 1022) \<le> \<bar>q\<bar>"
  shows "\<bar>fl q - q\<bar> \<le> \<bar>q\<bar> / 2 ^ 53"
proof -
  have q0: "q \<noteq> 0" using assms pow2_pos[of "- 1022"] by auto
  have "pow2 (- 1022) < pow2 (ilog2 q + 1)"
    using assms ilog2_bounds(2)[OF q0] by simp
  then have "- 1022 \<le> ilog2 q" using pow2_less_imp by fastforce
  then have "max (ilog2 q) (- 1022) = ilog2 q" by simp
  then have "\<bar>fl q - q\<bar> \<le> pow2 (ilog2 q - 53)" using fl_error[of q] by simp
  also have "\<dots> = pow2 (ilog2 q) * pow2 (- 53)" by (simp add: pow2_add[symmetric])
  also have "\<dots> \<le> \<bar>q\<bar> * pow2 (- 53)"
    using ilog2_bounds(1)[OF q0] pow2_pos[of "- 53"] by (simp add: mult_right_mono)
  also have "\<dots> = \<bar>q\<bar> / 2 ^ 53" by (simp add: pow2_def)
  finally show ?thesis .
qed

lemma fl_nonneg:
  assumes "0 \<le> q"
  shows "0 \<le> fl q"
proof -
  define u where "u = pow2 (max (ilog2 q) (- 1022) - 52)"
  have "0 < u" by (simp add: u_def pow2_pos)
  then have "0 \<le> q / u" using assms by simp
  then have "0 \<le> round_half_even (q / u)" by (rule round_half_even_nonneg)
  then have "0 \<le> (of_int (round_half_even (q / u)) :: rat) * u"
    using \<open>0 < u\<close> by simp
  then show ?thesis by (simp add: fl_def Let_def u_def)
qed

text \<open>An integer below \<open>2 ^ 53\<close> is a double.\<close>

lemma fl_of_int:
  assumes "\<bar>k\<bar> < 2 ^ 53"
  shows "fl (of_int k) = of_int k"
proof (cases "k = 0")
  case True
  then show ?thesis by (simp add: fl_def)
next
  case False
  define q :: rat where "q = of_int k"
  have q0: "q \<noteq> 0" using False by (simp add: q_def)
  define e where "e = ilog2 q"
  have "1 \<le> \<bar>k\<bar>" using False by simp
  then have "(of_int 1 :: rat) \<le> of_int \<bar>k\<bar>" by (simp only: of_int_le_iff)
  then have "(1::rat) \<le> \<bar>q\<bar>" by (simp add: q_def)
  then have "pow2 0 < pow2 (e + 1)" using ilog2_bounds(2)[OF q0] by (simp add: pow2_def e_def)
  then have e0: "0 \<le> e" using pow2_less_imp by fastforce
  have "(of_int \<bar>k\<bar> :: rat) < of_int (2 ^ 53)" using assms by (simp only: of_int_less_iff)
  then have "\<bar>q\<bar> < 2 ^ 53" by (simp add: q_def)
  then have "pow2 e < pow2 53" using ilog2_bounds(1)[OF q0] by (simp add: pow2_def e_def)
  then have e52: "e \<le> 52" using pow2_less_imp by fastforce
  have mx: "max (ilog2 q) (- 1022) = e" using e0 by (simp add: e_def)
  have u: "pow2 (e - 52) = 1 / 2 ^ nat (52 - e)"
  proof (cases "e = 52")
    case True then show ?thesis by (simp add: pow2_def)
  next
    case False
    then have "e - 52 < 0" using e52 by simp
    then show ?thesis by (simp add: pow2_def)
  qed
  have "q / pow2 (e - 52) = of_int (k * 2 ^ nat (52 - e))"
    by (simp add: u q_def)
  then have "round_half_even (q / pow2 (e - 52)) = k * 2 ^ nat (52 - e)"
    by (simp only: round_half_even_of_int)
  then have "fl q = of_int (k * 2 ^ nat (52 - e)) * pow2 (e - 52)"
    using q0 by (simp add: fl_def Let_def mx)
  also have "\<dots> = q" by (simp add: u q_def)
  finally show ?thesis by (simp add: q_def)
qed

lemma fl_no_overflow:
  assumes "\<bar>q\<bar> \<le> pow2 1023"
  shows "\<not> overflows (fl q)"
proof (cases "q = 0")
  case True
  then show ?thesis by (simp add: fl_def overflows_def)
next
  case False
  have "pow2 (ilog2 q) < pow2 1024"
    using ilog2_bounds(1)[OF False] assms pow2_strict_mono[of 1023 1024] by simp
  then have "ilog2 q < 1024" by (rule pow2_less_imp)
  then have "max (ilog2 q) (- 1022) - 53 \<le> 1022" by simp
  then have "pow2 (max (ilog2 q) (- 1022) - 53) \<le> pow2 1022" by (rule pow2_mono)
  then have "\<bar>fl q - q\<bar> \<le> pow2 1022" using fl_error[of q] by simp
  then have "\<bar>fl q\<bar> \<le> pow2 1023 + pow2 1022" using assms by linarith
  also have "\<dots> < pow2 1023 + pow2 1023" using pow2_strict_mono[of 1022 1023] by simp
  also have "\<dots> = pow2 1024" using pow2_add[of 1023 1] by (simp add: pow2_def[of 1])
  finally have "\<bar>fl q\<bar> < 2 ^ 1024" by (simp add: pow2_def)
  then show ?thesis by (simp add: overflows_def)
qed

lemma floor_near:
  fixes r :: rat
  assumes "0 < w" and "\<bar>r - of_int k / of_int w\<bar> < 1 / of_int w"
  shows "\<lceil>(of_int k / of_int w :: rat)\<rceil> - 1 \<le> \<lfloor>r\<rfloor>" and "\<lfloor>r\<rfloor> \<le> \<lfloor>(of_int k / of_int w :: rat)\<rfloor>"
proof -
  define d where "d = k div w"
  define m where "m = k mod w"
  have k: "k = w * d + m" by (simp add: d_def m_def)
  have m: "0 \<le> m" "m < w" using assms(1) by (simp_all add: m_def)
  have W: "(0::rat) < of_int w" using assms(1) by simp
  have fl: "\<lfloor>(of_int k / of_int w :: rat)\<rfloor> = d" by (simp add: d_def floor_divide_of_int_eq)
  have q: "(of_int k / of_int w :: rat) = of_int d + of_int m / of_int w"
    using W by (simp add: k field_simps)
  have mw: "(of_int m / of_int w :: rat) \<le> 1 - 1 / of_int w"
  proof -
    have "m + 1 \<le> w" using m by simp
    then have "(of_int (m + 1) :: rat) \<le> of_int w" by (simp only: of_int_le_iff)
    then show ?thesis using W by (simp add: field_simps)
  qed
  have "r < of_int k / of_int w + 1 / of_int w" using assms(2) by linarith
  then have "r < of_int d + 1" using q mw by linarith
  then have "r < of_int (d + 1)" by simp
  then have "\<lfloor>r\<rfloor> < d + 1" by (simp only: floor_less_iff)
  then show "\<lfloor>r\<rfloor> \<le> \<lfloor>(of_int k / of_int w :: rat)\<rfloor>" by (simp add: fl)
  have lo: "of_int k / of_int w - 1 / of_int w < r" using assms(2) by linarith
  show "\<lceil>(of_int k / of_int w :: rat)\<rceil> - 1 \<le> \<lfloor>r\<rfloor>"
  proof (cases "m = 0")
    case True
    then have "(of_int k / of_int w :: rat) = of_int d" using q by simp
    moreover have "(1 / of_int w :: rat) \<le> 1" using assms(1) W
      by (simp add: field_simps)
    ultimately have "of_int (d - 1) < r" using lo by simp
    then have "d - 1 \<le> \<lfloor>r\<rfloor>" by (simp add: le_floor_iff less_imp_le)
    moreover have "\<lceil>(of_int k / of_int w :: rat)\<rceil> = d"
      using \<open>(of_int k / of_int w :: rat) = of_int d\<close> by simp
    ultimately show ?thesis by simp
  next
    case False
    then have "1 \<le> m" using m by simp
    then have "(of_int 1 :: rat) \<le> of_int m" by (simp only: of_int_le_iff)
    then have m1: "(1 / of_int w :: rat) \<le> of_int m / of_int w" using W by (simp add: field_simps)
    then have "of_int d < r" using lo q by linarith
    then have dr: "d \<le> \<lfloor>r\<rfloor>" by (simp add: le_floor_iff less_imp_le)
    have "(0::rat) < 1 / of_int w" using W by simp
    then have "(of_int k / of_int w :: rat) \<le> of_int d + 1" using q mw by linarith
    then have "(of_int k / of_int w :: rat) \<le> of_int (d + 1)" by simp
    then have "\<lceil>(of_int k / of_int w :: rat)\<rceil> \<le> d + 1" by (simp only: ceiling_le_iff)
    then show ?thesis using dr by simp
  qed
qed

lemma ceiling_near:
  fixes r :: rat
  assumes "0 < c" and "\<not> c dvd n" and "\<bar>r - of_int n / of_int c\<bar> < 1 / of_int c"
  shows "\<lceil>r\<rceil> = \<lceil>(of_int n / of_int c :: rat)\<rceil>"
proof -
  define d where "d = n div c"
  define m where "m = n mod c"
  have n: "n = c * d + m" by (simp add: d_def m_def)
  have "m \<noteq> 0" using assms(2) by (simp add: m_def dvd_eq_mod_eq_0)
  moreover have "0 \<le> m" "m < c" using assms(1) by (simp_all add: m_def)
  ultimately have m: "1 \<le> m" "m + 1 \<le> c" by linarith+
  have C: "(0::rat) < of_int c" using assms(1) by simp
  have q: "(of_int n / of_int c :: rat) = of_int d + of_int m / of_int c"
    using C by (simp add: n field_simps)
  have "(of_int 1 :: rat) \<le> of_int m" using m(1) by (simp only: of_int_le_iff)
  then have lo: "(1 / of_int c :: rat) \<le> of_int m / of_int c" using C by (simp add: field_simps)
  have "(of_int (m + 1) :: rat) \<le> of_int c" using m(2) by (simp only: of_int_le_iff)
  then have hi: "(of_int m / of_int c :: rat) \<le> 1 - 1 / of_int c" using C by (simp add: field_simps)
  have "m < c" using m by simp
  then have "(of_int m :: rat) < of_int c" by (simp only: of_int_less_iff)
  then have hi': "(of_int m / of_int c :: rat) < 1" using C by simp
  have "of_int d < r" "r < of_int d + 1" using assms(3) q lo hi by linarith+
  then have "\<lceil>r\<rceil> = d + 1" by (simp add: ceiling_eq)
  moreover have "of_int d < (of_int n / of_int c :: rat)" "(of_int n / of_int c :: rat) \<le> of_int d + 1"
    using q lo hi' C by (simp_all add: less_le_trans[of 0 "1 / of_int c"])
  then have "\<lceil>(of_int n / of_int c :: rat)\<rceil> = d + 1" by (simp add: ceiling_eq)
  ultimately show ?thesis by simp
qed

lemma pow2_numeral_le: "(2::rat) ^ 53 \<le> pow2 1023"
proof -
  have "pow2 53 \<le> pow2 1023" by (rule pow2_mono) simp
  then show ?thesis by (simp add: pow2_def)
qed

lemma pow2_small_le: "pow2 (- 1022) \<le> 1 / 2 ^ 53"
proof -
  have "pow2 (- 1022) \<le> pow2 (- 53)" by (rule pow2_mono) simp
  then show ?thesis by (simp add: pow2_def)
qed

lemma of_int_less_pow53: "n < 2 ^ 53 \<Longrightarrow> (of_int n :: rat) < 2 ^ 53"
proof -
  assume "n < 2 ^ 53"
  then have "(of_int n :: rat) < of_int (2 ^ 53)" by (simp only: of_int_less_iff)
  then show ?thesis by simp
qed

text \<open>Line 65: the float quotient has the ceiling of the exact quotient.\<close>

lemma true_div_ceil:
  assumes "0 \<le> n" "n < 2 ^ 53" "0 < c" "c < 2 ^ 53"
  shows "\<exists>q. int_true_div n c = Inr q \<and> math_ceil q = \<lceil>(of_int n / of_int c :: rat)\<rceil>"
proof -
  define x :: rat where "x = of_int n / of_int c"
  have C: "(0::rat) < of_int c" using assms(3) by simp
  have N: "(0::rat) \<le> of_int n" using assms(1) by simp
  have x0: "0 \<le> x" using C N by (simp add: x_def)
  have c1: "(1::rat) \<le> of_int c" using assms(3) by simp
  have "of_int n * 1 \<le> of_int n * (of_int c :: rat)" using c1 N by (rule mult_left_mono)
  then have xn: "x \<le> of_int n" using C by (simp add: x_def field_simps)
  have "x < 2 ^ 53" using xn of_int_less_pow53[OF assms(2)] by simp
  then have "\<bar>x\<bar> \<le> pow2 1023" using x0 pow2_numeral_le by simp
  then have no: "\<not> overflows (fl x)" by (rule fl_no_overflow)
  have res: "int_true_div n c = Inr (fl x)"
    using assms(3) no by (simp add: int_true_div_def x_def Let_def)
  have "\<lceil>fl x\<rceil> = \<lceil>x\<rceil>"
  proof (cases "c dvd n")
    case True
    then obtain d where d: "n = c * d" by (auto simp: dvd_def)
    have xd: "x = of_int d" using C by (simp add: x_def d)
    have "0 \<le> d" using assms(1,3) d by (simp add: zero_le_mult_iff)
    moreover have "d \<le> n" using assms(3) d \<open>0 \<le> d\<close> by (simp add: mult_le_cancel_right1)
    ultimately have "\<bar>d\<bar> < 2 ^ 53" using assms(2) by simp
    then show ?thesis by (simp add: xd fl_of_int)
  next
    case False
    then have "n \<noteq> 0" by auto
    then have "1 \<le> n" using assms(1) by simp
    then have n1: "(1::rat) \<le> of_int n" by simp
    have c53: "(of_int c :: rat) < 2 ^ 53" by (rule of_int_less_pow53[OF assms(4)])
    have "1 / 2 ^ 53 \<le> 1 / (of_int c :: rat)" using C c53 by (simp add: frac_le)
    also have "\<dots> \<le> x" using n1 C by (simp add: x_def divide_right_mono)
    finally have "pow2 (- 1022) \<le> \<bar>x\<bar>" using pow2_small_le x0 by simp
    then have "\<bar>fl x - x\<bar> \<le> \<bar>x\<bar> / 2 ^ 53" by (rule fl_relative_error)
    also have "\<dots> = x / 2 ^ 53" using x0 by (simp only: abs_of_nonneg)
    also have "\<dots> = (of_int n / 2 ^ 53) / of_int c" by (simp add: x_def)
    also have "\<dots> < 1 / of_int c"
    proof -
      have "(of_int n :: rat) / 2 ^ 53 < 1" using of_int_less_pow53[OF assms(2)] by simp
      then show ?thesis using C by (rule divide_strict_right_mono)
    qed
    finally have "\<bar>fl x - of_int n / of_int c\<bar> < 1 / of_int c" by (simp add: x_def)
    then show ?thesis unfolding x_def by (rule ceiling_near[OF assms(3) False])
  qed
  then show ?thesis using res by (simp add: math_ceil_def x_def)
qed

text \<open>Lines 32 to 34: the height after the resize, against the exact quotient.\<close>

lemma new_height_bounds:
  assumes m: "0 < m" "m < w" and w: "w \<le> 2 ^ 53" and h: "0 \<le> h" and hm: "h * m < 2 ^ 51"
  shows "\<exists>ratio hr nh. int_true_div m w = Inr ratio \<and> int_mul_float h ratio = Inr hr \<and>
           py_int hr = Inr nh \<and>
           \<lceil>(of_int (h * m) / of_int w :: rat)\<rceil> - 1 \<le> nh \<and>
           nh \<le> \<lfloor>(of_int (h * m) / of_int w :: rat)\<rfloor>"
proof -
  define x0 :: rat where "x0 = of_int m / of_int w"
  define ratio where "ratio = fl x0"
  define H :: rat where "H = of_int h"
  define r where "r = fl (H * ratio)"
  define x :: rat where "x = of_int (h * m) / of_int w"
  have wpos: "0 < w" using m by simp
  have W: "(0::rat) < of_int w" using wpos by simp
  have M: "(1::rat) \<le> of_int m" using m(1) by simp
  have MW: "(of_int m :: rat) < of_int w" using m(2) by (simp only: of_int_less_iff)
  have H0: "0 \<le> H" using h by (simp add: H_def)
  have x0pos: "0 < x0" using M W by (simp add: x0_def)
  have x0lt: "x0 < 1" using MW W by (simp add: x0_def)
  have "(of_int w :: rat) \<le> of_int (2 ^ 53)" using w by (simp only: of_int_le_iff)
  then have w53: "(of_int w :: rat) \<le> 2 ^ 53" by simp
  have "1 / 2 ^ 53 \<le> 1 / (of_int w :: rat)" using W w53 by (simp add: frac_le)
  also have "\<dots> \<le> x0" using M W by (simp add: x0_def divide_right_mono)
  finally have x0lo: "1 / 2 ^ 53 \<le> x0" .
  then have "pow2 (- 1022) \<le> \<bar>x0\<bar>" using pow2_small_le by simp
  then have "\<bar>fl x0 - x0\<bar> \<le> \<bar>x0\<bar> / 2 ^ 53" by (rule fl_relative_error)
  then have e1: "\<bar>ratio - x0\<bar> \<le> x0 / 2 ^ 53" using x0pos by (simp add: ratio_def)
  have "\<bar>x0\<bar> \<le> pow2 1023" using x0pos x0lt pow2_numeral_le by simp
  then have "\<not> overflows (fl x0)" by (rule fl_no_overflow)
  then have res1: "int_true_div m w = Inr ratio"
    using wpos by (simp add: int_true_div_def x0_def ratio_def Let_def)
  have xH: "x = H * x0" by (simp add: x_def x0_def H_def)
  have x_nonneg: "0 \<le> x" using H0 x0pos by (simp add: xH)
  have "h * 1 \<le> h * m" using h m(1) by (intro mult_left_mono) simp_all
  then have h51: "h < 2 ^ 51" using hm by simp
  then have "\<bar>h\<bar> < 2 ^ 53" using h by simp
  then have flh: "fl (of_int h) = H" by (simp add: fl_of_int H_def)
  have "(of_int h :: rat) < of_int (2 ^ 51)" using h51 by (simp only: of_int_less_iff)
  then have H51: "H < 2 ^ 51" by (simp add: H_def)
  have "\<not> overflows H"
    using H0 H51 by (simp add: overflows_def)
  then have res2: "float_of_int h = Inr H"
    by (simp add: float_of_int_def flh Let_def)
  have "x0 / 2 ^ 53 \<le> x0 / 2" using x0pos by simp
  then have ratio_lo: "x0 / 2 \<le> ratio" using e1 by linarith
  have ratio_pos: "0 < ratio" using ratio_lo x0pos by linarith
  have e2: "\<bar>H * ratio - x\<bar> \<le> x / 2 ^ 53"
  proof -
    have "\<bar>H * ratio - x\<bar> = H * \<bar>ratio - x0\<bar>" using H0 by (simp add: xH abs_mult right_diff_distrib[symmetric])
    also have "\<dots> \<le> H * (x0 / 2 ^ 53)" using e1 H0 by (rule mult_left_mono)
    finally show ?thesis by (simp add: xH)
  qed
  have p_nonneg: "0 \<le> H * ratio" using H0 ratio_pos by simp
  have r_nonneg: "0 \<le> r" unfolding r_def by (rule fl_nonneg[OF p_nonneg])
  have XW: "x / 2 ^ 51 < 1 / of_int w"
  proof -
    have "(of_int (h * m) :: rat) < of_int (2 ^ 51)" using hm by (simp only: of_int_less_iff)
    then have "(of_int (h * m) :: rat) / 2 ^ 51 < 1" by simp
    then have "(of_int (h * m) / 2 ^ 51) / (of_int w :: rat) < 1 / of_int w"
      using W by (rule divide_strict_right_mono)
    then show ?thesis by (simp add: x_def)
  qed
  have e3: "\<bar>r - x\<bar> < 1 / of_int w"
  proof (cases "h = 0")
    case True
    then show ?thesis using W by (simp add: r_def H_def x_def fl_def)
  next
    case False
    then have "1 \<le> h" using h by simp
    then have H1: "1 \<le> H" by (simp add: H_def)
    have "x0 / 2 \<le> ratio" by (rule ratio_lo)
    moreover have "ratio * 1 \<le> ratio * H" using H1 ratio_pos by (intro mult_left_mono) simp_all
    ultimately have "x0 / 2 \<le> H * ratio" by (simp add: mult.commute)
    then have "1 / 2 ^ 54 \<le> H * ratio" using x0lo by simp
    moreover have "pow2 (- 1022) \<le> 1 / 2 ^ 54"
    proof -
      have "pow2 (- 1022) \<le> pow2 (- 54)" by (rule pow2_mono) simp
      then show ?thesis by (simp add: pow2_def)
    qed
    ultimately have "pow2 (- 1022) \<le> \<bar>H * ratio\<bar>" by simp
    then have "\<bar>fl (H * ratio) - H * ratio\<bar> \<le> \<bar>H * ratio\<bar> / 2 ^ 53" by (rule fl_relative_error)
    then have e4: "\<bar>r - H * ratio\<bar> \<le> (H * ratio) / 2 ^ 53" using p_nonneg by (simp add: r_def)
    have small: "x / 2 ^ 53 \<le> x" using x_nonneg by simp
    have "H * ratio \<le> x + x / 2 ^ 53" using e2 by linarith
    then have "H * ratio \<le> 2 * x" using small by linarith
    then have "(H * ratio) / 2 ^ 53 \<le> (2 * x) / 2 ^ 53" by (rule divide_right_mono) simp
    then have "\<bar>r - H * ratio\<bar> \<le> (2 * x) / 2 ^ 53" using e4 by linarith
    then have "\<bar>r - x\<bar> \<le> (2 * x) / 2 ^ 53 + x / 2 ^ 53" using e2 by linarith
    also have "\<dots> \<le> x / 2 ^ 51" using x_nonneg by simp
    finally show ?thesis using XW by linarith
  qed
  have "x \<le> H * 1" unfolding xH using H0 x0lt by (intro mult_left_mono) simp_all
  then have "x < 2 ^ 51" using H51 by simp
  moreover have "1 / (of_int w :: rat) \<le> 1" using W wpos by (simp add: field_simps)
  ultimately have "\<bar>r\<bar> \<le> 2 ^ 51 + 1" using e3 r_nonneg by linarith
  also have "\<dots> \<le> 2 ^ 53" by simp
  finally have "\<bar>r\<bar> < 2 ^ 1024" by (rule le_less_trans) simp
  then have "\<not> overflows r" by (simp add: overflows_def)
  then have res3: "int_mul_float h ratio = Inr (Finite r)"
    by (simp add: int_mul_float_def res2 float_mul_def r_def Let_def)
  have res4: "py_int (Finite r) = Inr \<lfloor>r\<rfloor>" using r_nonneg by (simp add: py_int_def)
  have "\<bar>r - of_int (h * m) / of_int w\<bar> < 1 / of_int w" using e3 by (simp add: x_def)
  from floor_near[OF wpos this] res1 res3 res4 show ?thesis by blast
qed

section \<open>One image\<close>

lemma auto_resize_result:
  assumes "auto_resize p nm img = (shown, Inr (img', w', h'))" and "img_size img = (w, h)"
  shows "(w \<le> max_width p \<and> shown = [] \<and> img' = img \<and> w' = w \<and> h' = h) \<or>
         (max_width p < w \<and> shown = [Info nm w h (max_width p) h'] \<and>
          img' = Resized img (max_width p) h' \<and> w' = max_width p \<and>
          (\<exists>ratio hr. int_true_div (max_width p) w = Inr ratio \<and>
             int_mul_float h ratio = Inr hr \<and> py_int hr = Inr h'))"
  using assms
  by (auto simp add: auto_resize_def resize_def Let_def
      split: if_splits sum.splits option.splits)

lemma auto_resize_size:
  assumes "auto_resize p nm img = (shown, Inr (img', w', h'))"
  shows "img_size img' = (w', h')"
  using assms
  by (auto simp add: auto_resize_def resize_def Let_def
      split: if_splits sum.splits option.splits prod.splits)

lemma load_image_size:
  assumes "load_image p f = (shown, Inr (img, w, h))"
  shows "img_size img = (w, h)"
  using assms
  by (auto simp add: load_image_def auto_resize_size split: sum.splits if_splits)



text \<open>
  C1.  Every image that yields a tile went through loading (and, if it was too wide,
  the resize) with an effective size \<open>w \<times> h\<close>; its tile is the crop of that image to
  the box with \<open>left = w div 2 - crop_width div 2 + x_offset\<close>, \<open>top = 20\<close>,
  \<open>right = left + crop_width\<close>, \<open>bottom = top + crop_height\<close>, and the tile measures
  \<open>crop_width \<times> crop_height\<close>.
\<close>

theorem tile_is_crop_rectangle:
  assumes "process_file p f = (shown, Some tile)"
  shows "\<exists>img w h left.
           load_image p f = (shown, Inr (img, w, h)) \<and> img_size img = (w, h) \<and>
           left = w div 2 - crop_width p div 2 + x_offset p \<and>
           tile = Cropped img left 20 (left + crop_width p) (20 + crop_height p) \<and>
           img_size tile = (crop_width p, crop_height p)"
proof -
  from assms obtain img w h where
    li: "load_image p f = (shown, Inr (img, w, h))" and
    ok: "\<not> too_small p w h" and
    cr: "crop img (crop_box p w) = Inr tile"
    by (auto simp add: process_file_def crop_image_def
        split: prod.splits sum.splits if_splits)
  from cr have "tile = Cropped img (w div 2 - crop_width p div 2 + x_offset p) 20
      (w div 2 - crop_width p div 2 + x_offset p + crop_width p) (20 + crop_height p)"
    by (auto simp add: crop_def crop_box_def Let_def split: if_splits option.splits)
  then show ?thesis using li load_image_size[OF li] by simp
qed

theorem tile_is_crop_rectangle_witness:
  "process_file default_params \<lparr>name = ''a.png'', content = Inr (Opened ''RGBA'' 300 300 None)\<rparr>
     = ([], Some (Cropped (Opened ''RGBA'' 300 300 None) 78 20 222 164)) \<and>
   (\<exists>img w h left.
      load_image default_params \<lparr>name = ''a.png'', content = Inr (Opened ''RGBA'' 300 300 None)\<rparr>
        = ([], Inr (img, w, h)) \<and> img_size img = (w, h) \<and>
      left = w div 2 - crop_width default_params div 2 + x_offset default_params \<and>
      Cropped (Opened ''RGBA'' 300 300 None) 78 20 222 164
        = Cropped img left 20 (left + crop_width default_params) (20 + crop_height default_params) \<and>
      img_size (Cropped (Opened ''RGBA'' 300 300 None) 78 20 222 164)
        = (crop_width default_params, crop_height default_params))"
proof -
  have h: "process_file default_params
             \<lparr>name = ''a.png'', content = Inr (Opened ''RGBA'' 300 300 None)\<rparr>
           = ([], Some (Cropped (Opened ''RGBA'' 300 300 None) 78 20 222 164))"
    by code_simp
  show ?thesis by (rule conjI[OF h tile_is_crop_rectangle[OF h]])
qed

text \<open>
  C9.  When the test of line 46 lets an image through and the crop size is positive,
  the crop box lies inside the image: \<open>0 \<le> left < right \<le> w\<close> and
  \<open>0 \<le> top = 20 < bottom \<le> h\<close>, where \<open>w \<times> h\<close> is the size of the image that is
  cropped.  The call of \<open>crop\<close> then never rejects the box: it returns the cropped
  image, or fails only because the pixel data cannot be read.
\<close>

theorem crop_box_within_image:
  assumes "load_image p f = (shown, Inr (img, w, h))"
    and "\<not> too_small p w h"
    and "0 < crop_width p" and "0 < crop_height p"
  shows "\<exists>left upper right lower.
           crop_box p w = (left, upper, right, lower) \<and> img_size img = (w, h) \<and>
           0 \<le> left \<and> left < right \<and> right \<le> w \<and>
           upper = 20 \<and> 0 \<le> upper \<and> upper < lower \<and> lower \<le> h \<and>
           crop img (left, upper, right, lower) =
             (case load img of None \<Rightarrow> Inr (Cropped img left upper right lower) | Some e \<Rightarrow> Inl e)"
  using assms load_image_size[OF assms(1)]
  by (auto simp add: too_small_def crop_box_def crop_def Let_def split: option.splits)

theorem crop_box_within_image_witness:
  "load_image default_params \<lparr>name = ''a.png'', content = Inr (Opened ''RGBA'' 300 300 None)\<rparr>
     = ([], Inr (Opened ''RGBA'' 300 300 None, 300, 300)) \<and>
   \<not> too_small default_params 300 300 \<and>
   0 < crop_width default_params \<and> 0 < crop_height default_params \<and>
   (\<exists>left upper right lower.
      crop_box default_params 300 = (left, upper, right, lower) \<and>
      img_size (Opened ''RGBA'' 300 300 None) = (300, 300) \<and>
      0 \<le> left \<and> left < right \<and> right \<le> 300 \<and>
      upper = 20 \<and> 0 \<le> upper \<and> upper < lower \<and> lower \<le> 300 \<and>
      crop (Opened ''RGBA'' 300 300 None) (left, upper, right, lower) =
        (case load (Opened ''RGBA'' 300 300 None) of
           None \<Rightarrow> Inr (Cropped (Opened ''RGBA'' 300 300 None) left upper right lower)
         | Some e \<Rightarrow> Inl e))"
proof -
  have h1: "load_image default_params
              \<lparr>name = ''a.png'', content = Inr (Opened ''RGBA'' 300 300 None)\<rparr>
            = ([], Inr (Opened ''RGBA'' 300 300 None, 300, 300))"
    by code_simp
  have h2: "\<not> too_small default_params 300 300" by code_simp
  have h3: "0 < crop_width default_params" by code_simp
  have h4: "0 < crop_height default_params" by code_simp
  show ?thesis
    using h1 h2 h3 h4 crop_box_within_image[OF h1 h2 h3 h4] by (intro conjI)
qed



section \<open>Evaluating the float operations on given numbers\<close>

lemma ilog2_eqI:
  assumes "pow2 e \<le> \<bar>q\<bar>" and "\<bar>q\<bar> < pow2 (e + 1)"
  shows "ilog2 q = e"
proof -
  have q0: "q \<noteq> 0" using assms(1) pow2_pos[of e] by auto
  have "pow2 (ilog2 q) < pow2 (e + 1)" using ilog2_bounds(1)[OF q0] assms(2) by simp
  then have "ilog2 q < e + 1" by (rule pow2_less_imp)
  moreover have "pow2 e < pow2 (ilog2 q + 1)" using ilog2_bounds(2)[OF q0] assms(1) by simp
  then have "e < ilog2 q + 1" by (rule pow2_less_imp)
  ultimately show ?thesis by simp
qed

lemma fl_eqI:
  assumes "pow2 e \<le> \<bar>q\<bar>" and "\<bar>q\<bar> < pow2 (e + 1)" and "- 1022 \<le> e"
    and "round_half_even (q / pow2 (e - 52)) = n"
  shows "fl q = of_int n * pow2 (e - 52)"
proof -
  have q0: "q \<noteq> 0" using assms(1) pow2_pos[of e] by auto
  have "ilog2 q = e" by (rule ilog2_eqI[OF assms(1,2)])
  then show ?thesis using q0 assms(3,4) by (simp add: fl_def Let_def max_def)
qed

lemma floor_rat_numeral: "\<lfloor>(numeral a / numeral b :: rat)\<rfloor> = numeral a div numeral b"
  by (metis floor_divide_of_int_eq of_int_numeral)

lemma true_div_400_464: "int_true_div 400 464 = Inr (3882413471871117 / 4503599627370496)"
proof -
  have "fl (of_int 400 / of_int 464) = of_int 7764826943742234 * pow2 (- 1 - 52)"
    by (rule fl_eqI) (simp_all add: pow2_def round_half_even_def floor_rat_numeral)
  then show ?thesis by (simp add: int_true_div_def overflows_def pow2_def)
qed

lemma mul_580_ratio:
  "int_mul_float 580 (3882413471871117 / 4503599627370496)
     = Inr (Finite (8796093022207999 / 17592186044416))"
proof -
  have a: "fl (of_int 580) = of_int 580" by (rule fl_of_int) simp
  have "fl (580 * (3882413471871117 / 4503599627370496))
          = of_int 8796093022207999 * pow2 (8 - 52)"
    by (rule fl_eqI) (simp_all add: pow2_def round_half_even_def floor_rat_numeral)
  then show ?thesis using a
    by (simp add: int_mul_float_def float_of_int_def float_mul_def overflows_def pow2_def)
qed

lemma true_div_400_800: "int_true_div 400 800 = Inr (1 / 2)"
proof -
  have "fl (of_int 400 / of_int 800) = of_int 4503599627370496 * pow2 (- 1 - 52)"
    by (rule fl_eqI) (simp_all add: pow2_def round_half_even_def)
  then show ?thesis by (simp add: int_true_div_def overflows_def pow2_def)
qed

lemma mul_600_half: "int_mul_float 600 (1 / 2) = Inr (Finite 300)"
proof -
  have a: "fl (of_int 600) = of_int 600" by (rule fl_of_int) simp
  have "fl (of_int 300) = of_int 300" by (rule fl_of_int) simp
  then show ?thesis using a
    by (simp add: int_mul_float_def float_of_int_def float_mul_def overflows_def)
qed

section \<open>The automatic resize\<close>

text \<open>
  C4, as stated, fails: a 464 \<times> 580 image with \<open>max_width = 400\<close> is resized to
  400 \<times> 499, while \<open>580 * (400 / 464)\<close> is exactly 500.  The quotient \<open>400 / 464\<close> is
  rounded to a double just below 25/29 and the product to one just below 500.
\<close>

theorem resize_height_counterexample:
  "load_image default_params \<lparr>name = ''a.png'', content = Inr (Opened ''RGBA'' 464 580 None)\<rparr>
     = ([Info ''a.png'' 464 580 400 499],
        Inr (Resized (Opened ''RGBA'' 464 580 None) 400 499, 400, 499)) \<and>
   \<lfloor>(580 * (400 / 464) :: rat)\<rfloor> = 500"
  by (simp add: load_image_def Image_open_def auto_resize_def default_params_def
      true_div_400_464 mul_580_ratio py_int_def resize_def floor_rat_numeral)

text \<open>
  C4, amended.  Let \<open>w \<times> h\<close> be the size of an image after the conversion to RGBA, and
  let it reach the cropping step.  If \<open>w \<le> max_width\<close> the image and its size are
  unchanged and nothing is reported.  If \<open>w > max_width\<close> it is the resized image, its
  width is \<open>max_width\<close>, the resize is reported, and its height \<open>h'\<close> is the exact value
  \<open>h * max_width / w\<close> rounded down, or that value less one when it is an integer:
  \<open>\<lceil>h * max_width / w\<rceil> - 1 \<le> h' \<le> \<lfloor>h * max_width / w\<rfloor>\<close>.  The bounds on the sizes hold
  for every image whose sides are below \<open>2 ^ 31\<close> and every \<open>max_width\<close> below \<open>2 ^ 20\<close>.
\<close>

theorem resize_rule:
  assumes "content f = Inr img0"
    and "img1 = (if mode img0 \<noteq> ''RGBA'' then Converted img0 ''RGBA'' else img0)"
    and "img_size img0 = (w, h)"
    and "load_image p f = (shown, Inr (img, w', h'))"
    and "0 < max_width p" and "0 \<le> h" and "h * max_width p < 2 ^ 51" and "w \<le> 2 ^ 53"
  shows "(w \<le> max_width p \<longrightarrow> img = img1 \<and> w' = w \<and> h' = h \<and> shown = []) \<and>
         (max_width p < w \<longrightarrow>
            img = Resized img1 (max_width p) h' \<and> w' = max_width p \<and>
            img_size img = (max_width p, h') \<and>
            shown = [Info (name f) w h (max_width p) h'] \<and>
            \<lceil>(of_int (h * max_width p) / of_int w :: rat)\<rceil> - 1 \<le> h' \<and>
            h' \<le> \<lfloor>(of_int (h * max_width p) / of_int w :: rat)\<rfloor>)"
proof -
  have ar: "auto_resize p (name f) img1 = (shown, Inr (img, w', h'))"
    using assms(1,2,4)
    by (auto simp add: load_image_def Image_open_def convert_def
        split: sum.splits if_splits option.splits)
  have sz: "img_size img1 = (w, h)" using assms(2,3) by simp
  from auto_resize_result[OF ar sz] show ?thesis
  proof
    assume "w \<le> max_width p \<and> shown = [] \<and> img = img1 \<and> w' = w \<and> h' = h"
    then show ?thesis by simp
  next
    assume r: "max_width p < w \<and> shown = [Info (name f) w h (max_width p) h'] \<and>
          img = Resized img1 (max_width p) h' \<and> w' = max_width p \<and>
          (\<exists>ratio hr. int_true_div (max_width p) w = Inr ratio \<and>
             int_mul_float h ratio = Inr hr \<and> py_int hr = Inr h')"
    then have lt: "max_width p < w" by simp
    from new_height_bounds[OF assms(5) lt assms(8) assms(6) assms(7)] r
    have "\<lceil>(of_int (h * max_width p) / of_int w :: rat)\<rceil> - 1 \<le> h' \<and>
          h' \<le> \<lfloor>(of_int (h * max_width p) / of_int w :: rat)\<rfloor>"
      by auto
    then show ?thesis using r by simp
  qed
qed

theorem resize_rule_witness:
  "content \<lparr>name = ''a.png'', content = Inr (Opened ''RGB'' 800 600 None)\<rparr>
     = Inr (Opened ''RGB'' 800 600 None) \<and>
   Converted (Opened ''RGB'' 800 600 None) ''RGBA''
     = (if mode (Opened ''RGB'' 800 600 None) \<noteq> ''RGBA''
        then Converted (Opened ''RGB'' 800 600 None) ''RGBA'' else Opened ''RGB'' 800 600 None) \<and>
   img_size (Opened ''RGB'' 800 600 None) = (800, 600) \<and>
   load_image default_params \<lparr>name = ''a.png'', content = Inr (Opened ''RGB'' 800 600 None)\<rparr>
     = ([Info ''a.png'' 800 600 400 300],
        Inr (Resized (Converted (Opened ''RGB'' 800 600 None) ''RGBA'') 400 300, 400, 300)) \<and>
   0 < max_width default_params \<and> (0::int) \<le> 600 \<and>
   600 * max_width default_params < 2 ^ 51 \<and> (800::int) \<le> 2 ^ 53 \<and>
   max_width default_params < 800 \<and>
   \<lceil>(of_int (600 * max_width default_params) / of_int 800 :: rat)\<rceil> - 1 \<le> 300 \<and>
   300 \<le> \<lfloor>(of_int (600 * max_width default_params) / of_int 800 :: rat)\<rfloor>"
proof -
  let ?f = "\<lparr>name = ''a.png'', content = Inr (Opened ''RGB'' 800 600 None)\<rparr>"
  have h1: "content ?f = Inr (Opened ''RGB'' 800 600 None)" by simp
  have h2: "Converted (Opened ''RGB'' 800 600 None) ''RGBA''
     = (if mode (Opened ''RGB'' 800 600 None) \<noteq> ''RGBA''
        then Converted (Opened ''RGB'' 800 600 None) ''RGBA'' else Opened ''RGB'' 800 600 None)"
    by simp
  have h3: "img_size (Opened ''RGB'' 800 600 None) = (800, 600)" by simp
  have h4: "load_image default_params ?f
     = ([Info ''a.png'' 800 600 400 300],
        Inr (Resized (Converted (Opened ''RGB'' 800 600 None) ''RGBA'') 400 300, 400, 300))"
    by (simp add: load_image_def Image_open_def convert_def auto_resize_def default_params_def
        true_div_400_800 mul_600_half py_int_def resize_def)
  have h5: "0 < max_width default_params" by code_simp
  have h6: "(0::int) \<le> 600" by simp
  have h7: "600 * max_width default_params < 2 ^ 51" by code_simp
  have h8: "(800::int) \<le> 2 ^ 53" by simp
  have h9: "max_width default_params < 800" by code_simp
  from resize_rule[OF h1 h2 h3 h4 h5 h6 h7 h8] h9
  have "\<lceil>(of_int (600 * max_width default_params) / of_int 800 :: rat)\<rceil> - 1 \<le> 300 \<and>
        300 \<le> \<lfloor>(of_int (600 * max_width default_params) / of_int 800 :: rat)\<rfloor>"
    by blast
  then show ?thesis using h1 h2 h3 h4 h5 h6 h7 h8 h9 by (intro conjI) simp_all
qed

section \<open>Sheets\<close>

lemma ceiling_div_pos:
  assumes "0 < c"
  shows "\<lceil>(of_int n / of_int c :: rat)\<rceil> = (n + c - 1) div c"
proof -
  define z where "z = (n + c - 1) div c"
  define m where "m = (n + c - 1) mod c"
  have e: "n + c - 1 = c * z + m" by (simp add: z_def m_def)
  have m: "0 \<le> m" "m < c" using assms by (simp_all add: m_def)
  have C: "(0::rat) < of_int c" using assms by simp
  have "n \<le> c * z" using e m by linarith
  then have "(of_int n :: rat) \<le> of_int (c * z)" by (simp only: of_int_le_iff)
  then have hi: "(of_int n / of_int c :: rat) \<le> of_int z"
    using C by (simp add: field_simps)
  have "c * (z - 1) < n" using e m by (simp add: algebra_simps)
  then have "(of_int (c * (z - 1)) :: rat) < of_int n" by (simp only: of_int_less_iff)
  then have lo: "of_int z - 1 < (of_int n / of_int c :: rat)"
    using C by (simp add: field_simps)
  have "\<lceil>(of_int n / of_int c :: rat)\<rceil> = z" using lo hi by (rule ceiling_unique)
  then show ?thesis by (simp only: z_def)
qed

lemma paste_tiles_pastes:
  "pastes (paste_tiles p sheet i g) =
     pastes sheet @
     map (\<lambda>j. (g ! j, ((i + int j) mod columns p) * crop_width p,
                     ((i + int j) div columns p) * crop_height p)) [0..<length g]"
proof (induction g arbitrary: sheet i)
  case Nil
  then show ?case by simp
next
  case (Cons t g)
  have "map (\<lambda>j. ((t # g) ! j, ((i + int j) mod columns p) * crop_width p,
                     ((i + int j) div columns p) * crop_height p)) [0..<length (t # g)]
        = (t, (i mod columns p) * crop_width p, (i div columns p) * crop_height p) #
          map (\<lambda>j. (g ! j, ((i + 1 + int j) mod columns p) * crop_width p,
                     ((i + 1 + int j) div columns p) * crop_height p)) [0..<length g]"
    by (simp add: upt_conv_Cons map_Suc_upt[symmetric] add.assoc del: upt_Suc)
  then show ?case by (simp add: Cons.IH paste_def Let_def)
qed

lemma paste_tiles_canvas: "canvas (paste_tiles p sheet i g) = canvas sheet"
  by (induction g arbitrary: sheet i) (simp_all add: paste_def Let_def)

lemma paste_tiles_size: "img_size (paste_tiles p sheet i g) = img_size sheet"
  by (induction g arbitrary: sheet i) (simp_all add: paste_def Let_def)

lemma paste_tiles_mode: "mode (paste_tiles p sheet i g) = mode sheet"
  by (induction g arbitrary: sheet i) (simp_all add: paste_def Let_def)

text \<open>What a sheet is when the body of the loop of line 61 returns one.\<close>

lemma make_sheet_inv:
  assumes "make_sheet alloc p ts i = Inr s"
    and "g = take (nat (columns p * rows p)) (drop (nat i) ts)"
  shows "\<exists>q. int_true_div (int (length g)) (columns p) = Inr q \<and>
           s = (paste_tiles p
                  (New_image ''RGBA'' (crop_width p * columns p) (crop_height p * math_ceil q)
                     (0, 0, 0, 0)) 0 g,
                sheet_filename (i div (columns p * rows p) + 1))"
  using assms(1) unfolding make_sheet_def assms(2) Let_def
  by (auto simp add: Image_new_def split: sum.splits if_splits)

text \<open>The same, for a layout the float division is exact enough on.\<close>

lemma make_sheet_exact:
  assumes "0 < columns p" "0 < rows p" "columns p * rows p < 2 ^ 53"
    and "make_sheet alloc p ts i = Inr s"
    and "g = take (nat (columns p * rows p)) (drop (nat i) ts)"
  shows "s = (paste_tiles p
                (New_image ''RGBA'' (crop_width p * columns p)
                   (crop_height p * \<lceil>(of_int (int (length g)) / of_int (columns p) :: rat)\<rceil>)
                   (0, 0, 0, 0)) 0 g,
              sheet_filename (i div (columns p * rows p) + 1))"
proof -
  have "length g \<le> nat (columns p * rows p)" by (simp add: assms(5))
  moreover have "0 < columns p * rows p" using assms(1,2) by simp
  ultimately have "int (length g) \<le> columns p * rows p" by linarith
  then have n53: "int (length g) < 2 ^ 53" using assms(3) by simp
  have "columns p * 1 \<le> columns p * rows p" using assms(1,2) by (intro mult_left_mono) simp_all
  then have c53: "columns p < 2 ^ 53" using assms(3) by simp
  from true_div_ceil[OF _ n53 assms(1) c53] obtain q' where
    q': "int_true_div (int (length g)) (columns p) = Inr q'"
        "math_ceil q' = \<lceil>(of_int (int (length g)) / of_int (columns p) :: rat)\<rceil>"
    by auto
  from make_sheet_inv[OF assms(4,5)] q' show ?thesis by auto
qed

text \<open>When the body of the loop returns a sheet: the layout and the crop size are
  positive, the sheet fits the limits of \<open>Image.new\<close>, and its buffer can be allocated.\<close>

lemma make_sheet_ok:
  assumes "0 < columns p" "0 < rows p" "columns p * rows p < 2 ^ 53"
    and "0 < crop_width p" "0 < crop_height p"
    and "crop_width p * columns p \<le> INT_MAX div 4 - 1"
    and "crop_height p * rows p \<le> INT_MAX"
    and "\<forall>h. 0 \<le> h \<and> h \<le> crop_height p * rows p \<longrightarrow> alloc (crop_width p * columns p) h"
  shows "\<exists>s. make_sheet alloc p ts i = Inr s"
proof -
  define g where "g = take (nat (columns p * rows p)) (drop (nat i) ts)"
  define r where "r = \<lceil>(of_int (int (length g)) / of_int (columns p) :: rat)\<rceil>"
  have Cpos: "0 < columns p * rows p" using assms(1,2) by simp
  have "length g \<le> nat (columns p * rows p)" by (simp add: g_def)
  then have nC: "int (length g) \<le> columns p * rows p" using Cpos by linarith
  then have n53: "int (length g) < 2 ^ 53" using assms(3) by simp
  have "columns p * 1 \<le> columns p * rows p" using assms(1,2) by (intro mult_left_mono) simp_all
  then have c53: "columns p < 2 ^ 53" using assms(3) by simp
  from true_div_ceil[OF _ n53 assms(1) c53] obtain q where
    q: "int_true_div (int (length g)) (columns p) = Inr q" "math_ceil q = r"
    unfolding r_def by auto
  have C: "(0::rat) < of_int (columns p)" using assms(1) by simp
  have "(0::rat) \<le> of_int (int (length g)) / of_int (columns p)" using assms(1) by simp
  then have r0: "0 \<le> r" unfolding r_def by (simp only: zero_le_ceiling)
  have "(of_int (int (length g)) :: rat) \<le> of_int (columns p * rows p)"
    using nC by (simp only: of_int_le_iff)
  then have "(of_int (int (length g)) / of_int (columns p) :: rat) \<le> of_int (rows p)"
    using C by (simp add: field_simps)
  then have rr: "r \<le> rows p" unfolding r_def by (simp only: ceiling_le_iff)
  have h0: "0 \<le> crop_height p * r" using assms(5) r0 by simp
  have h1: "crop_height p * r \<le> crop_height p * rows p"
    using assms(5) rr by (intro mult_left_mono) simp_all
  have al: "alloc (crop_width p * columns p) (crop_height p * r)"
    using assms(8) h0 h1 by blast
  have w0: "0 \<le> crop_width p * columns p" using assms(1,4) by simp
  have hm: "crop_height p * r \<le> INT_MAX" using h1 assms(7) by simp
  have "INT_MAX div 4 - 1 \<le> INT_MAX" by (simp add: INT_MAX_def)
  then have wm: "crop_width p * columns p \<le> INT_MAX" using assms(6) by simp
  show ?thesis
    using q h0 w0 al hm wm assms(6) unfolding make_sheet_def g_def[symmetric] Let_def
    by (simp add: Image_new_def not_less)
qed

text \<open>The loop of line 61 from \<open>sheet_index = i\<close> on, when it returns: how many sheets it
  made, and that its \<open>j\<close>-th sheet is the one made for \<open>sheet_index = i + j * capacity\<close>.\<close>

lemma sheets_from_inv:
  assumes "sheets_from alloc p ts i = Inr ss"
  shows "int (length ss) =
           (if 0 < columns p * rows p
            then max 0 ((int (length ts) - i + columns p * rows p - 1) div (columns p * rows p))
            else 0) \<and>
         (\<forall>j<length ss. make_sheet alloc p ts (i + int j * (columns p * rows p)) = Inr (ss ! j))"
  using assms
proof (induction alloc p ts i arbitrary: ss rule: sheets_from.induct)
  case (1 alloc p ts i)
  define C where "C = columns p * rows p"
  define N where "N = int (length ts)"
  show ?case
  proof (cases "0 < C \<and> i < N")
    case True
    then have Cpos: "0 < C" and lt: "i < N" by simp_all
    have guard: "0 < columns p * rows p \<and> i < int (length ts)"
      using True by (simp add: C_def N_def)
    from "1.prems" guard obtain s rest where
      ms: "make_sheet alloc p ts i = Inr s" and
      rs: "sheets_from alloc p ts (i + C) = Inr rest" and
      ss: "ss = s # rest"
      by (subst (asm) sheets_from.simps) (auto simp add: C_def split: sum.splits)
    from "1.IH"[OF guard ms rs[unfolded C_def]] Cpos have
      len': "int (length rest) = max 0 ((N - (i + C) + C - 1) div C)" and
      nth': "\<forall>j<length rest. make_sheet alloc p ts (i + C + int j * C) = Inr (rest ! j)"
      unfolding C_def[symmetric] N_def[symmetric] by simp_all
    have "0 \<le> N - i - 1" using lt by simp
    then have d0: "0 \<le> (N - i - 1) div C" using Cpos by (simp add: pos_imp_zdiv_nonneg_iff)
    have "(N - i + C - 1) div C = (N - i - 1 + C) div C" by (simp add: algebra_simps)
    also have "\<dots> = (N - i - 1) div C + 1" using Cpos by simp
    finally have cnt: "(N - i + C - 1) div C = (N - i - 1) div C + 1" .
    have "N - (i + C) + C - 1 = N - i - 1" by simp
    then have "int (length rest) = (N - i - 1) div C" using len' d0 by simp
    then have len: "int (length ss) = max 0 ((N - i + C - 1) div C)"
      using cnt d0 by (simp add: ss)
    have nth: "\<forall>j<length ss. make_sheet alloc p ts (i + int j * C) = Inr (ss ! j)"
    proof (intro allI impI)
      fix j assume j: "j < length ss"
      show "make_sheet alloc p ts (i + int j * C) = Inr (ss ! j)"
      proof (cases j)
        case 0
        then show ?thesis using ms by (simp add: ss)
      next
        case (Suc k)
        then have "k < length rest" using j by (simp add: ss)
        then have "make_sheet alloc p ts (i + C + int k * C) = Inr (rest ! k)"
          using nth' by blast
        moreover have "i + int j * C = i + C + int k * C" by (simp add: Suc algebra_simps)
        moreover have "ss ! j = rest ! k" by (simp add: Suc ss)
        ultimately show ?thesis by (simp only:)
      qed
    qed
    show ?thesis using len nth Cpos unfolding C_def N_def by simp
  next
    case False
    then have e: "ss = []" using "1.prems"
      by (subst (asm) sheets_from.simps) (auto simp add: C_def N_def)
    show ?thesis
    proof (cases "0 < C")
      case True
      then have "N - i + C - 1 \<le> C - 1" using False by simp
      then have "(N - i + C - 1) div C \<le> (C - 1) div C" using True by (rule zdiv_mono1)
      moreover have "(C - 1) div C = 0" using True by (simp add: div_pos_pos_trivial)
      ultimately have "(N - i + C - 1) div C \<le> 0" by simp
      then show ?thesis using e True unfolding C_def N_def by simp
    next
      case False
      then show ?thesis using e unfolding C_def by simp
    qed
  qed
qed

lemma sheets_from_ok:
  assumes "\<forall>i. \<exists>s. make_sheet alloc p ts i = Inr s"
  shows "\<exists>ss. sheets_from alloc p ts i = Inr ss"
  using assms
proof (induction alloc p ts i rule: sheets_from.induct)
  case (1 alloc p ts i)
  show ?case
  proof (cases "0 < columns p * rows p \<and> i < int (length ts)")
    case True
    from "1.prems" obtain s where ms: "make_sheet alloc p ts i = Inr s" by blast
    from "1.IH"[OF True ms "1.prems"] obtain rest where
      rs: "sheets_from alloc p ts (i + columns p * rows p) = Inr rest" by blast
    show ?thesis using True ms rs by (subst sheets_from.simps) simp
  next
    case False
    then show ?thesis by (subst sheets_from.simps) auto
  qed
qed

text \<open>A batch that returns sheets.\<close>

lemma returned_sheets:
  assumes "process_images alloc p files = (shown, Inr sheets)"
    and "tiles = snd (crop_all p files [] [])"
  shows "shown = fst (crop_all p files [] [])"
    and "int (length sheets) =
           (if 0 < columns p * rows p
            then (int (length tiles) + columns p * rows p - 1) div (columns p * rows p)
            else 0)"
    and "\<forall>k<length sheets.
           make_sheet alloc p tiles (int k * (columns p * rows p)) = Inr (sheets ! k)"
proof -
  obtain sh where ca: "crop_all p files [] [] = (sh, tiles)"
    using assms(2) by (cases "crop_all p files [] []") simp
  from assms(1) have sf: "sheets_from alloc p tiles 0 = Inr sheets" and s: "shown = sh"
    by (auto simp add: process_images_def ca split: if_splits)
  show "shown = fst (crop_all p files [] [])" by (simp add: s ca)
  from sheets_from_inv[OF sf] have
    len: "int (length sheets) =
           (if 0 < columns p * rows p
            then max 0 ((int (length tiles) - 0 + columns p * rows p - 1) div (columns p * rows p))
            else 0)" and
    nth: "\<forall>j<length sheets.
            make_sheet alloc p tiles (0 + int j * (columns p * rows p)) = Inr (sheets ! j)"
    by simp_all
  show "\<forall>k<length sheets.
           make_sheet alloc p tiles (int k * (columns p * rows p)) = Inr (sheets ! k)"
    using nth by simp
  show "int (length sheets) =
           (if 0 < columns p * rows p
            then (int (length tiles) + columns p * rows p - 1) div (columns p * rows p)
            else 0)"
  proof (cases "0 < columns p * rows p")
    case True
    then have "0 \<le> int (length tiles) + columns p * rows p - 1" by simp
    then have "0 \<le> (int (length tiles) + columns p * rows p - 1) div (columns p * rows p)"
      using True by (simp add: pos_imp_zdiv_nonneg_iff)
    then show ?thesis using len True by simp
  next
    case False
    then show ?thesis using len by simp
  qed
qed

lemma returned_sheets_capacity:
  assumes "process_images alloc p files = (shown, Inr sheets)" and "sheets \<noteq> []"
  shows "0 < columns p * rows p"
proof (rule ccontr)
  assume "\<not> 0 < columns p * rows p"
  with returned_sheets(2)[OF assms(1) refl] have "int (length sheets) = 0" by simp
  then show False using assms(2) by simp
qed

lemma process_images_ok:
  assumes "0 < columns p" "0 < rows p" "columns p * rows p < 2 ^ 53"
    and "0 < crop_width p" "0 < crop_height p"
    and "crop_width p * columns p \<le> INT_MAX div 4 - 1"
    and "crop_height p * rows p \<le> INT_MAX"
    and "\<forall>h. 0 \<le> h \<and> h \<le> crop_height p * rows p \<longrightarrow> alloc (crop_width p * columns p) h"
  shows "\<exists>sheets. process_images alloc p files = (fst (crop_all p files [] []), Inr sheets)"
proof -
  obtain sh tiles where ca: "crop_all p files [] [] = (sh, tiles)"
    by (cases "crop_all p files [] []")
  have "\<forall>i. \<exists>s. make_sheet alloc p tiles i = Inr s"
  proof
    fix i
    show "\<exists>s. make_sheet alloc p tiles i = Inr s"
      by (rule make_sheet_ok[where alloc = alloc and p = p]) (rule assms)+
  qed
  from sheets_from_ok[OF this] obtain ss where "sheets_from alloc p tiles 0 = Inr ss" by blast
  then show ?thesis using assms(1,2) by (simp add: process_images_def ca)
qed

lemma crop_all_replicate:
  assumes "process_file p f = ([], Some t)"
  shows "crop_all p (replicate n f) shown acc = (shown, acc @ replicate n t)"
proof (induction n arbitrary: acc)
  case 0
  then show ?case by simp
next
  case (Suc n)
  then show ?case using assms by (simp add: replicate_app_Cons_same)
qed

lemma one_file:
  "process_file default_params \<lparr>name = ''a.png'', content = Inr (Opened ''RGBA'' 300 300 None)\<rparr>
     = ([], Some (Cropped (Opened ''RGBA'' 300 300 None) 78 20 222 164))"
  by code_simp

lemma ten_files:
  "crop_all default_params
     (replicate 10 \<lparr>name = ''a.png'', content = Inr (Opened ''RGBA'' 300 300 None)\<rparr>) [] []
   = ([], replicate 10 (Cropped (Opened ''RGBA'' 300 300 None) 78 20 222 164))"
  using one_file by (simp only: crop_all_replicate append_Nil)

lemma default_params_valid:
  "0 < columns default_params" "0 < rows default_params"
  "columns default_params * rows default_params < 2 ^ 53"
  "0 < crop_width default_params" "0 < crop_height default_params"
  "crop_width default_params * columns default_params \<le> INT_MAX div 4 - 1"
  "crop_height default_params * rows default_params \<le> INT_MAX"
  by (simp_all add: default_params_def INT_MAX_def)

lemma default_params_alloc:
  "\<forall>h. 0 \<le> h \<and> h \<le> crop_height default_params * rows default_params \<longrightarrow>
       (\<lambda>w h. w * h \<le> 2 ^ 28) (crop_width default_params * columns default_params) h"
  by (simp add: default_params_def)

lemma list_of_two:
  assumes "length xs = 2"
  shows "xs = [xs ! 0, xs ! 1]"
proof -
  from assms obtain a b where "xs = [a, b]"
    by (cases xs; cases "tl xs") auto
  then show ?thesis by simp
qed

lemma ceiling_rat_numeral:
  "\<lceil>(numeral a / numeral b :: rat)\<rceil> = - (- numeral a div numeral b)"
  by (metis ceiling_def floor_divide_of_int_eq minus_divide_left of_int_minus of_int_numeral)

text \<open>The first scenario of the specification: ten 300 \<times> 300 images and the default
  parameters give a full sheet and a sheet of two tiles, on a machine that can allocate
  a buffer of \<open>2 ^ 28\<close> pixels.\<close>

lemma ten_sheets:
  "process_images (\<lambda>w h. w * h \<le> 2 ^ 28) default_params
     (replicate 10 \<lparr>name = ''a.png'', content = Inr (Opened ''RGBA'' 300 300 None)\<rparr>)
   = ([], Inr [(paste_tiles default_params (New_image ''RGBA'' 576 288 (0, 0, 0, 0)) 0
                  (replicate 8 (Cropped (Opened ''RGBA'' 300 300 None) 78 20 222 164)),
                ''Emo_sheet.png''),
               (paste_tiles default_params (New_image ''RGBA'' 576 144 (0, 0, 0, 0)) 0
                  (replicate 2 (Cropped (Opened ''RGBA'' 300 300 None) 78 20 222 164)),
                ''Emo_sheet_02.png'')])"
proof -
  let ?A = "\<lambda>w h :: int. w * h \<le> 2 ^ 28"
  let ?fs = "replicate 10 \<lparr>name = ''a.png'', content = Inr (Opened ''RGBA'' 300 300 None)\<rparr>"
  let ?t = "Cropped (Opened ''RGBA'' 300 300 None) 78 20 222 164"
  have tiles: "replicate 10 ?t = snd (crop_all default_params ?fs [] [])"
    by (simp add: ten_files)
  have vals: "columns default_params = 4" "rows default_params = 2"
    "crop_width default_params = 144" "crop_height default_params = 144"
    by (simp_all add: default_params_def)
  have "\<exists>sheets. process_images ?A default_params ?fs
          = (fst (crop_all default_params ?fs [] []), Inr sheets)"
    by (rule process_images_ok[where alloc = ?A and p = default_params])
       (rule default_params_valid default_params_alloc)+
  then obtain sheets where pi: "process_images ?A default_params ?fs = ([], Inr sheets)"
    unfolding ten_files fst_conv by (elim exE) (rule that)
  have len: "int (length sheets) = 2"
    using returned_sheets(2)[OF pi tiles] by (simp add: vals)
  then have l2: "length sheets = 2" by simp
  have ms: "\<forall>k<length sheets. make_sheet ?A default_params (replicate 10 ?t) (int k * 8)
              = Inr (sheets ! k)"
    using returned_sheets(3)[OF pi tiles] by (simp add: vals)
  have c12: "\<lceil>(1 / 2 :: rat)\<rceil> = 1" by (rule ceiling_unique) simp_all
  have i0: "(0::nat) < length sheets" and i1: "(1::nat) < length sheets" using l2 by simp_all
  have m0: "make_sheet ?A default_params (replicate 10 ?t) 0 = Inr (sheets ! 0)"
    using ms[rule_format, OF i0] by simp
  have m1: "make_sheet ?A default_params (replicate 10 ?t) 8 = Inr (sheets ! 1)"
    using ms[rule_format, OF i1] by simp
  have s0: "sheets ! 0 =
      (paste_tiles default_params (New_image ''RGBA'' 576 288 (0, 0, 0, 0)) 0 (replicate 8 ?t),
       ''Emo_sheet.png'')"
    using make_sheet_exact[OF default_params_valid(1-3) m0 refl]
    by (simp add: vals sheet_filename_def ceiling_rat_numeral)
  have s1: "sheets ! 1 =
      (paste_tiles default_params (New_image ''RGBA'' 576 144 (0, 0, 0, 0)) 0 (replicate 2 ?t),
       ''Emo_sheet_02.png'')"
    using make_sheet_exact[OF default_params_valid(1-3) m1 refl]
    by (simp add: vals sheet_filename_def format_02d_def decimal.simps digit_char_def
        ceiling_rat_numeral c12)
  show ?thesis using pi list_of_two[OF l2] s0 s1 by simp
qed

text \<open>
  C2.  Let \<open>columns\<close> and \<open>rows\<close> be positive, \<open>N\<close> the number of tiles cropped and
  \<open>C = columns * rows\<close>.  Whenever \<open>process_images\<close> returns a list of sheets, the list is
  empty if \<open>N = 0\<close> and has \<open>\<lceil>N / C\<rceil>\<close> sheets if \<open>N > 0\<close>.  And it does return one, with
  the messages of the per-image loop, when the crop size is positive, the capacity is
  below \<open>2 ^ 53\<close>, the largest sheet (\<open>crop_width * columns\<close> by \<open>crop_height * rows\<close>) is
  within the limits of \<open>Image.new\<close>, and the buffer of a sheet of that width and any
  height up to that one can be allocated.
\<close>

theorem sheet_count:
  assumes "0 < columns p" "0 < rows p"
  shows "(\<forall>shown sheets.
            process_images alloc p files = (shown, Inr sheets) \<longrightarrow>
            (let N = length (snd (crop_all p files [] [])); C = columns p * rows p
             in (N = 0 \<longrightarrow> sheets = []) \<and>
                (0 < N \<longrightarrow> int (length sheets) = \<lceil>(of_nat N / of_int C :: rat)\<rceil>))) \<and>
         (columns p * rows p < 2 ^ 53 \<and> 0 < crop_width p \<and> 0 < crop_height p \<and>
          crop_width p * columns p \<le> INT_MAX div 4 - 1 \<and>
          crop_height p * rows p \<le> INT_MAX \<and>
          (\<forall>h. 0 \<le> h \<and> h \<le> crop_height p * rows p \<longrightarrow>
               alloc (crop_width p * columns p) h) \<longrightarrow>
          (\<exists>sheets. process_images alloc p files = (fst (crop_all p files [] []), Inr sheets)))"
proof (intro conjI allI impI)
  fix shown sheets
  assume pi: "process_images alloc p files = (shown, Inr sheets)"
  define tiles where "tiles = snd (crop_all p files [] [])"
  have Cpos: "0 < columns p * rows p" using assms by simp
  have len: "int (length sheets) =
      (int (length tiles) + columns p * rows p - 1) div (columns p * rows p)"
    using returned_sheets(2)[OF pi tiles_def] Cpos by simp
  have c: "int (length sheets)
      = \<lceil>(of_int (int (length tiles)) / of_int (columns p * rows p) :: rat)\<rceil>"
    using len ceiling_div_pos[OF Cpos, of "int (length tiles)"] by simp
  have "length tiles = 0 \<longrightarrow> sheets = []"
  proof
    assume "length tiles = 0"
    then have "int (length sheets) = 0" using c by simp
    then show "sheets = []" by simp
  qed
  then show "let N = length (snd (crop_all p files [] [])); C = columns p * rows p
             in (N = 0 \<longrightarrow> sheets = []) \<and>
                (0 < N \<longrightarrow> int (length sheets) = \<lceil>(of_nat N / of_int C :: rat)\<rceil>)"
    using c unfolding tiles_def Let_def by auto
next
  assume b: "columns p * rows p < 2 ^ 53 \<and> 0 < crop_width p \<and> 0 < crop_height p \<and>
          crop_width p * columns p \<le> INT_MAX div 4 - 1 \<and>
          crop_height p * rows p \<le> INT_MAX \<and>
          (\<forall>h. 0 \<le> h \<and> h \<le> crop_height p * rows p \<longrightarrow>
               alloc (crop_width p * columns p) h)"
  show "\<exists>sheets. process_images alloc p files = (fst (crop_all p files [] []), Inr sheets)"
    by (rule process_images_ok[where alloc = alloc and p = p]) (use assms b in simp_all)
qed

theorem sheet_count_witness:
  "0 < columns default_params \<and> 0 < rows default_params \<and>
   columns default_params * rows default_params < 2 ^ 53 \<and>
   0 < crop_width default_params \<and> 0 < crop_height default_params \<and>
   crop_width default_params * columns default_params \<le> INT_MAX div 4 - 1 \<and>
   crop_height default_params * rows default_params \<le> INT_MAX \<and>
   (\<lambda>w h. w * h \<le> 2 ^ 28)
      (crop_width default_params * columns default_params)
      (crop_height default_params * rows default_params) \<and>
   length (snd (crop_all default_params
      (replicate 10 \<lparr>name = ''a.png'', content = Inr (Opened ''RGBA'' 300 300 None)\<rparr>) [] []))
     = 10 \<and>
   (\<exists>sheets.
      process_images (\<lambda>w h. w * h \<le> 2 ^ 28) default_params
        (replicate 10 \<lparr>name = ''a.png'', content = Inr (Opened ''RGBA'' 300 300 None)\<rparr>)
        = ([], Inr sheets) \<and> length sheets = 2) \<and>
   length (snd (crop_all default_params [] [] [])) = 0 \<and>
   (\<exists>sheets. process_images (\<lambda>w h. w * h \<le> 2 ^ 28) default_params [] = ([], Inr sheets) \<and>
      sheets = [])"
proof -
  let ?A = "\<lambda>w h :: int. w * h \<le> 2 ^ 28"
  let ?fs = "replicate 10 \<lparr>name = ''a.png'', content = Inr (Opened ''RGBA'' 300 300 None)\<rparr>"
  note v = default_params_valid
  note T = sheet_count[OF v(1,2), of ?A]
  have b: "columns default_params * rows default_params < 2 ^ 53 \<and>
      0 < crop_width default_params \<and> 0 < crop_height default_params \<and>
      crop_width default_params * columns default_params \<le> INT_MAX div 4 - 1 \<and>
      crop_height default_params * rows default_params \<le> INT_MAX \<and>
      (\<forall>h. 0 \<le> h \<and> h \<le> crop_height default_params * rows default_params \<longrightarrow>
           ?A (crop_width default_params * columns default_params) h)"
    using v default_params_alloc by (intro conjI)
  have a: "?A (crop_width default_params * columns default_params)
      (crop_height default_params * rows default_params)"
    by (simp add: default_params_def)
  have n10: "length (snd (crop_all default_params ?fs [] [])) = 10" by (simp add: ten_files)
  have n0: "length (snd (crop_all default_params [] [] [])) = 0" by simp
  from T[of ?fs, THEN conjunct2, rule_format, OF b] obtain sheets where
    pi: "process_images ?A default_params ?fs = ([], Inr sheets)"
    unfolding ten_files fst_conv by (elim exE) (rule that)
  have "let N = length (snd (crop_all default_params ?fs [] []));
            C = columns default_params * rows default_params
        in (N = 0 \<longrightarrow> sheets = []) \<and>
           (0 < N \<longrightarrow> int (length sheets) = \<lceil>(of_nat N / of_int C :: rat)\<rceil>)"
    using T[of ?fs, THEN conjunct1, rule_format, OF pi] .
  then have "int (length sheets) = \<lceil>(5 / 4 :: rat)\<rceil>"
    unfolding ten_files by (simp add: default_params_def)
  also have "\<dots> = 2" by (rule ceiling_unique) simp_all
  finally have l2: "length sheets = 2" by simp
  from T[of "[]", THEN conjunct2, rule_format, OF b] obtain sheets0 where
    pi0: "process_images ?A default_params [] = ([], Inr sheets0)"
    by (elim exE) simp
  have "let N = length (snd (crop_all default_params [] [] []));
            C = columns default_params * rows default_params
        in (N = 0 \<longrightarrow> sheets0 = []) \<and>
           (0 < N \<longrightarrow> int (length sheets0) = \<lceil>(of_nat N / of_int C :: rat)\<rceil>)"
    using T[of "[]", THEN conjunct1, rule_format, OF pi0] .
  then have e0: "sheets0 = []" by simp
  have r1: "\<exists>sheets. process_images ?A default_params ?fs = ([], Inr sheets) \<and> length sheets = 2"
    using pi l2 by blast
  have r0: "\<exists>sheets. process_images ?A default_params [] = ([], Inr sheets) \<and> sheets = []"
    using pi0 e0 by blast
  show ?thesis using v a n10 r1 n0 r0 by (intro conjI)
qed

text \<open>
  C6.  Let \<open>columns\<close> and \<open>rows\<close> be positive and the capacity below \<open>2 ^ 53\<close>.  Every sheet
  that \<open>process_images\<close> returns measures \<open>crop_width * columns\<close> by
  \<open>crop_height * \<lceil>n / columns\<rceil>\<close>, where \<open>n\<close> is the number of tiles pasted on it, and
  before the first paste it is the new RGBA image of that size filled with the colour
  \<open>(0, 0, 0, 0)\<close>, whose alpha is zero.
\<close>

theorem sheet_raster:
  assumes "process_images alloc p files = (shown, Inr sheets)"
    and "0 < columns p" "0 < rows p" "columns p * rows p < 2 ^ 53"
  shows "\<forall>k<length sheets.
           let sheet = fst (sheets ! k);
               n = int (length (pastes sheet));
               W = crop_width p * columns p;
               H = crop_height p * \<lceil>(of_int n / of_int (columns p) :: rat)\<rceil>
           in img_size sheet = (W, H) \<and>
              canvas sheet = New_image ''RGBA'' W H (0, 0, 0, 0)"
proof (intro allI impI)
  fix k assume k: "k < length sheets"
  define tiles where "tiles = snd (crop_all p files [] [])"
  define g where
    "g = take (nat (columns p * rows p)) (drop (nat (int k * (columns p * rows p))) tiles)"
  have ms: "make_sheet alloc p tiles (int k * (columns p * rows p)) = Inr (sheets ! k)"
    using returned_sheets(3)[OF assms(1) tiles_def] k by blast
  have e: "sheets ! k =
      (paste_tiles p
         (New_image ''RGBA'' (crop_width p * columns p)
            (crop_height p * \<lceil>(of_int (int (length g)) / of_int (columns p) :: rat)\<rceil>)
            (0, 0, 0, 0)) 0 g,
       sheet_filename (int k * (columns p * rows p) div (columns p * rows p) + 1))"
    by (rule make_sheet_exact[OF assms(2-4) ms g_def])
  show "let sheet = fst (sheets ! k);
            n = int (length (pastes sheet));
            W = crop_width p * columns p;
            H = crop_height p * \<lceil>(of_int n / of_int (columns p) :: rat)\<rceil>
        in img_size sheet = (W, H) \<and>
           canvas sheet = New_image ''RGBA'' W H (0, 0, 0, 0)"
    unfolding e Let_def
    by (simp add: paste_tiles_pastes paste_tiles_size paste_tiles_canvas)
qed

theorem sheet_raster_witness:
  "process_images (\<lambda>w h. w * h \<le> 2 ^ 28) default_params
     (replicate 10 \<lparr>name = ''a.png'', content = Inr (Opened ''RGBA'' 300 300 None)\<rparr>)
   = ([], Inr [(paste_tiles default_params (New_image ''RGBA'' 576 288 (0, 0, 0, 0)) 0
                  (replicate 8 (Cropped (Opened ''RGBA'' 300 300 None) 78 20 222 164)),
                ''Emo_sheet.png''),
               (paste_tiles default_params (New_image ''RGBA'' 576 144 (0, 0, 0, 0)) 0
                  (replicate 2 (Cropped (Opened ''RGBA'' 300 300 None) 78 20 222 164)),
                ''Emo_sheet_02.png'')]) \<and>
   0 < columns default_params \<and> 0 < rows default_params \<and>
   columns default_params * rows default_params < 2 ^ 53 \<and>
   length (pastes (paste_tiles default_params (New_image ''RGBA'' 576 144 (0, 0, 0, 0)) 0
                  (replicate 2 (Cropped (Opened ''RGBA'' 300 300 None) 78 20 222 164)))) = 2 \<and>
   img_size (paste_tiles default_params (New_image ''RGBA'' 576 144 (0, 0, 0, 0)) 0
                  (replicate 2 (Cropped (Opened ''RGBA'' 300 300 None) 78 20 222 164)))
     = (576, 144) \<and>
   canvas (paste_tiles default_params (New_image ''RGBA'' 576 144 (0, 0, 0, 0)) 0
                  (replicate 2 (Cropped (Opened ''RGBA'' 300 300 None) 78 20 222 164)))
     = New_image ''RGBA'' 576 144 (0, 0, 0, 0)"
proof -
  let ?t = "Cropped (Opened ''RGBA'' 300 300 None) 78 20 222 164"
  let ?s0 = "paste_tiles default_params (New_image ''RGBA'' 576 288 (0, 0, 0, 0)) 0 (replicate 8 ?t)"
  let ?s1 = "paste_tiles default_params (New_image ''RGBA'' 576 144 (0, 0, 0, 0)) 0 (replicate 2 ?t)"
  let ?sheets = "[(?s0, ''Emo_sheet.png''), (?s1, ''Emo_sheet_02.png'')]"
  note v = default_params_valid(1-3)
  have i1: "(1::nat) < length ?sheets" by simp
  have n2: "length (pastes ?s1) = 2" by (simp add: paste_tiles_pastes)
  have c: "\<lceil>(2 / 4 :: rat)\<rceil> = 1" by (rule ceiling_unique) simp_all
  have "let sheet = fst (?sheets ! 1);
            n = int (length (pastes sheet));
            W = crop_width default_params * columns default_params;
            H = crop_height default_params *
                  \<lceil>(of_int n / of_int (columns default_params) :: rat)\<rceil>
        in img_size sheet = (W, H) \<and>
           canvas sheet = New_image ''RGBA'' W H (0, 0, 0, 0)"
    using sheet_raster[OF ten_sheets v, rule_format, OF i1] .
  then have r: "img_size ?s1 = (576, 144) \<and> canvas ?s1 = New_image ''RGBA'' 576 144 (0, 0, 0, 0)"
    unfolding Let_def nth_Cons_Suc One_nat_def nth_Cons_0 fst_conv n2
    using c by (simp add: default_params_def)
  show ?thesis using ten_sheets v n2 r by (intro conjI) simp_all
qed

text \<open>
  C5.  Let \<open>tiles\<close> be the cropped tiles in input order and \<open>C\<close> the capacity.  In every
  list of sheets that \<open>process_images\<close> returns, sheet \<open>k\<close> (counted from 0) received the
  tiles \<open>k * C, k * C + 1, \<dots>\<close>, at most \<open>C\<close> of them, pasted in that order, and the \<open>i\<close>-th
  of them (counted from 0) was pasted at \<open>x = (i mod columns) * crop_width\<close>,
  \<open>y = (i div columns) * crop_height\<close>.
\<close>

theorem tile_placement:
  assumes "process_images alloc p files = (shown, Inr sheets)"
  shows "\<forall>k<length sheets.
           let tiles = snd (crop_all p files [] []);
               C = nat (columns p * rows p);
               placed = pastes (fst (sheets ! k))
           in length placed = min C (length tiles - k * C) \<and>
              (\<forall>i<length placed.
                 placed ! i =
                   (tiles ! (k * C + i),
                    (int i mod columns p) * crop_width p,
                    (int i div columns p) * crop_height p))"
proof (intro allI impI)
  fix k assume k: "k < length sheets"
  define tiles where "tiles = snd (crop_all p files [] [])"
  define C where "C = nat (columns p * rows p)"
  have "sheets \<noteq> []" using k by auto
  then have Cpos: "0 < columns p * rows p"
    by (rule returned_sheets_capacity[OF assms])
  have n: "nat (int k * (columns p * rows p)) = k * C"
    using Cpos by (simp add: nat_mult_distrib C_def)
  have g: "take C (drop (k * C) tiles)
             = take (nat (columns p * rows p)) (drop (nat (int k * (columns p * rows p))) tiles)"
    using n by (simp only: C_def)
  have ms: "make_sheet alloc p tiles (int k * (columns p * rows p)) = Inr (sheets ! k)"
    using returned_sheets(3)[OF assms tiles_def] k by blast
  from make_sheet_inv[OF ms g] obtain q where
    e: "sheets ! k =
          (paste_tiles p
             (New_image ''RGBA'' (crop_width p * columns p) (crop_height p * math_ceil q)
                (0, 0, 0, 0)) 0 (take C (drop (k * C) tiles)),
           sheet_filename (int k * (columns p * rows p) div (columns p * rows p) + 1))"
    by blast
  have "length (pastes (fst (sheets ! k))) = min C (length tiles - k * C) \<and>
        (\<forall>i<length (pastes (fst (sheets ! k))).
            pastes (fst (sheets ! k)) ! i =
              (tiles ! (k * C + i),
               (int i mod columns p) * crop_width p,
               (int i div columns p) * crop_height p))"
    unfolding e by (auto simp add: paste_tiles_pastes min.commute)
  then show "let tiles = snd (crop_all p files [] []);
               C = nat (columns p * rows p);
               placed = pastes (fst (sheets ! k))
           in length placed = min C (length tiles - k * C) \<and>
              (\<forall>i<length placed.
                 placed ! i =
                   (tiles ! (k * C + i),
                    (int i mod columns p) * crop_width p,
                    (int i div columns p) * crop_height p))"
    unfolding tiles_def C_def Let_def .
qed

theorem tile_placement_witness:
  "process_images (\<lambda>w h. w * h \<le> 2 ^ 28) default_params
     (replicate 10 \<lparr>name = ''a.png'', content = Inr (Opened ''RGBA'' 300 300 None)\<rparr>)
   = ([], Inr [(paste_tiles default_params (New_image ''RGBA'' 576 288 (0, 0, 0, 0)) 0
                  (replicate 8 (Cropped (Opened ''RGBA'' 300 300 None) 78 20 222 164)),
                ''Emo_sheet.png''),
               (paste_tiles default_params (New_image ''RGBA'' 576 144 (0, 0, 0, 0)) 0
                  (replicate 2 (Cropped (Opened ''RGBA'' 300 300 None) 78 20 222 164)),
                ''Emo_sheet_02.png'')]) \<and>
   length (pastes (paste_tiles default_params (New_image ''RGBA'' 576 288 (0, 0, 0, 0)) 0
                  (replicate 8 (Cropped (Opened ''RGBA'' 300 300 None) 78 20 222 164)))) = 8 \<and>
   pastes (paste_tiles default_params (New_image ''RGBA'' 576 288 (0, 0, 0, 0)) 0
                  (replicate 8 (Cropped (Opened ''RGBA'' 300 300 None) 78 20 222 164))) ! 5
     = (Cropped (Opened ''RGBA'' 300 300 None) 78 20 222 164, 144, 144) \<and>
   length (pastes (paste_tiles default_params (New_image ''RGBA'' 576 144 (0, 0, 0, 0)) 0
                  (replicate 2 (Cropped (Opened ''RGBA'' 300 300 None) 78 20 222 164)))) = 2 \<and>
   pastes (paste_tiles default_params (New_image ''RGBA'' 576 144 (0, 0, 0, 0)) 0
                  (replicate 2 (Cropped (Opened ''RGBA'' 300 300 None) 78 20 222 164))) ! 1
     = (Cropped (Opened ''RGBA'' 300 300 None) 78 20 222 164, 144, 0)"
proof -
  let ?fs = "replicate 10 \<lparr>name = ''a.png'', content = Inr (Opened ''RGBA'' 300 300 None)\<rparr>"
  let ?t = "Cropped (Opened ''RGBA'' 300 300 None) 78 20 222 164"
  let ?s0 = "paste_tiles default_params (New_image ''RGBA'' 576 288 (0, 0, 0, 0)) 0 (replicate 8 ?t)"
  let ?s1 = "paste_tiles default_params (New_image ''RGBA'' 576 144 (0, 0, 0, 0)) 0 (replicate 2 ?t)"
  let ?sheets = "[(?s0, ''Emo_sheet.png''), (?s1, ''Emo_sheet_02.png'')]"
  have vals: "columns default_params = 4" "rows default_params = 2"
    "crop_width default_params = 144" "crop_height default_params = 144"
    by (simp_all add: default_params_def)
  have i0: "(0::nat) < length ?sheets" and i1: "(1::nat) < length ?sheets" by simp_all
  note T = tile_placement[OF ten_sheets, rule_format, unfolded ten_files Let_def vals snd_conv]
  have p0: "length (pastes ?s0) = min (nat (4 * 2)) (length (replicate 10 ?t) - 0 * nat (4 * 2)) \<and>
      (\<forall>i<length (pastes ?s0). pastes ?s0 ! i =
          (replicate 10 ?t ! (0 * nat (4 * 2) + i), (int i mod 4) * 144, (int i div 4) * 144))"
    using T[OF i0] by simp
  have p1: "length (pastes ?s1) = min (nat (4 * 2)) (length (replicate 10 ?t) - 1 * nat (4 * 2)) \<and>
      (\<forall>i<length (pastes ?s1). pastes ?s1 ! i =
          (replicate 10 ?t ! (1 * nat (4 * 2) + i), (int i mod 4) * 144, (int i div 4) * 144))"
    using T[OF i1] by simp
  have a0: "length (pastes ?s0) = 8" using p0 by simp
  have a1: "length (pastes ?s1) = 2" using p1 by simp
  have "(5::nat) < length (pastes ?s0)" using a0 by simp
  with p0 have b0: "pastes ?s0 ! 5 = (?t, 144, 144)" by simp
  have "(1::nat) < length (pastes ?s1)" using a1 by simp
  with p1 have b1: "pastes ?s1 ! 1 = (?t, 144, 0)" by simp
  show ?thesis using ten_sheets a0 b0 a1 b1 by (intro conjI)
qed

section \<open>File names\<close>

lemma digit_cases:
  assumes "d < 10"
  shows "d \<in> {0, 1, 2, 3, 4, 5, 6, 7, 8, 9::nat}"
  using assms by auto

lemma digit_value_digit_char: "d < 10 \<Longrightarrow> digit_value (digit_char d) = d"
  using digit_cases[of d] by (auto simp add: digit_value_def digit_char_def)

lemma is_digit_digit_char: "d < 10 \<Longrightarrow> is_digit (digit_char d)"
  using digit_cases[of d] by (auto simp add: is_digit_def digit_char_def)

lemma digit_char_nonzero: "0 < d \<Longrightarrow> d < 10 \<Longrightarrow> digit_char d \<noteq> CHR ''0''"
  using digit_cases[of d] by (auto simp add: digit_char_def)

lemma decimal_value_snoc:
  "decimal_value (s @ [c]) = 10 * decimal_value s + digit_value c"
  by (simp add: decimal_value_def)

lemma decimal_value_pad: "decimal_value (CHR ''0'' # s) = decimal_value s"
  by (simp add: decimal_value_def digit_value_def)

lemma decimal_value_decimal: "decimal_value (decimal n) = n"
proof (induction n rule: decimal.induct)
  case (1 n)
  show ?case
  proof (cases "n < 10")
    case True
    then show ?thesis
      by (subst decimal.simps) (simp add: decimal_value_def digit_value_digit_char)
  next
    case False
    then have "decimal_value (decimal (n div 10)) = n div 10" using "1.IH" by simp
    then show ?thesis using False
      by (subst decimal.simps) (simp add: decimal_value_snoc digit_value_digit_char)
  qed
qed

lemma decimal_digits: "c \<in> set (decimal n) \<Longrightarrow> is_digit c"
proof (induction n rule: decimal.induct)
  case (1 n)
  show ?case
  proof (cases "n < 10")
    case True
    then show ?thesis using "1.prems"
      by (subst (asm) decimal.simps) (simp add: is_digit_digit_char)
  next
    case False
    then show ?thesis using "1.prems" "1.IH"
      by (subst (asm) decimal.simps) (auto simp add: is_digit_digit_char)
  qed
qed

lemma decimal_nonempty: "decimal n \<noteq> []"
  by (subst decimal.simps) simp

lemma length_decimal_small: "n < 10 \<Longrightarrow> length (decimal n) = 1"
  by (subst decimal.simps) simp

lemma length_decimal_two: "10 \<le> n \<Longrightarrow> n < 100 \<Longrightarrow> length (decimal n) = 2"
  by (subst decimal.simps) (simp add: length_decimal_small)

lemma length_decimal_ge2: "10 \<le> n \<Longrightarrow> 2 \<le> length (decimal n)"
proof -
  assume "10 \<le> n"
  then have "length (decimal n) = length (decimal (n div 10)) + 1"
    by (subst decimal.simps) simp
  moreover have "1 \<le> length (decimal (n div 10))"
    using decimal_nonempty[of "n div 10"] by (cases "decimal (n div 10)") simp_all
  ultimately show ?thesis by simp
qed

lemma hd_decimal: "0 < n \<Longrightarrow> hd (decimal n) \<noteq> CHR ''0''"
proof (induction n rule: decimal.induct)
  case (1 n)
  show ?case
  proof (cases "n < 10")
    case True
    then show ?thesis using "1.prems"
      by (subst decimal.simps) (simp add: digit_char_nonzero)
  next
    case False
    then have "0 < n div 10" by simp
    then have "hd (decimal (n div 10)) \<noteq> CHR ''0''" using "1.IH" False by simp
    then show ?thesis using False decimal_nonempty[of "n div 10"]
      by (subst decimal.simps) simp
  qed
qed

text \<open>The format \<open>02d\<close> on a non-negative number.\<close>

lemma format_02d_props:
  assumes "0 \<le> n"
  shows "decimal_value (format_02d n) = nat n"
    and "\<forall>c\<in>set (format_02d n). is_digit c"
    and "2 \<le> length (format_02d n)"
    and "n < 100 \<Longrightarrow> length (format_02d n) = 2"
    and "100 \<le> n \<Longrightarrow> hd (format_02d n) \<noteq> CHR ''0''"
proof -
  have z: "is_digit CHR ''0''" by (simp add: is_digit_def)
  show "decimal_value (format_02d n) = nat n"
    using assms by (simp add: format_02d_def Let_def decimal_value_pad decimal_value_decimal)
  show "\<forall>c\<in>set (format_02d n). is_digit c"
    using assms z by (auto simp add: format_02d_def Let_def decimal_digits)
  show "2 \<le> length (format_02d n)"
  proof (cases "nat n < 10")
    case True
    then show ?thesis using assms by (simp add: format_02d_def Let_def length_decimal_small)
  next
    case False
    then have "2 \<le> length (decimal (nat n))" by (simp add: length_decimal_ge2)
    then show ?thesis using assms by (simp add: format_02d_def Let_def)
  qed
  show "length (format_02d n) = 2" if "n < 100"
  proof (cases "nat n < 10")
    case True
    then show ?thesis using assms by (simp add: format_02d_def Let_def length_decimal_small)
  next
    case False
    then have "length (decimal (nat n)) = 2" using that by (simp add: length_decimal_two)
    then show ?thesis using assms by (simp add: format_02d_def Let_def)
  qed
  show "hd (format_02d n) \<noteq> CHR ''0''" if "100 \<le> n"
  proof -
    have "2 \<le> length (decimal (nat n))" using that by (simp add: length_decimal_ge2)
    moreover have "hd (decimal (nat n)) \<noteq> CHR ''0''" using that by (simp add: hd_decimal)
    ultimately show ?thesis using assms by (simp add: format_02d_def Let_def)
  qed
qed

lemma sheet_filename_inj:
  assumes "1 \<le> a" "1 \<le> b" and "sheet_filename a = sheet_filename b"
  shows "a = b"
proof (cases "a = 1 \<or> b = 1")
  case True
  then show ?thesis using assms(3) by (auto simp add: sheet_filename_def split: if_splits)
next
  case False
  then have "format_02d a = format_02d b" using assms(3) by (simp add: sheet_filename_def)
  then have "decimal_value (format_02d a) = decimal_value (format_02d b)" by simp
  then have "nat a = nat b" using assms(1,2) by (simp add: format_02d_props(1))
  then show ?thesis using assms(1,2) by simp
qed


lemma returned_names:
  assumes "process_images alloc p files = (shown, Inr sheets)"
  shows "\<forall>k<length sheets. snd (sheets ! k) = sheet_filename (int k + 1)"
proof (intro allI impI)
  fix k assume k: "k < length sheets"
  have "sheets \<noteq> []" using k by auto
  then have Cpos: "0 < columns p * rows p"
    by (rule returned_sheets_capacity[OF assms])
  have ms: "make_sheet alloc p (snd (crop_all p files [] [])) (int k * (columns p * rows p))
              = Inr (sheets ! k)"
    using returned_sheets(3)[OF assms refl] k by blast
  from make_sheet_inv[OF ms refl] have
    "snd (sheets ! k)
       = sheet_filename (int k * (columns p * rows p) div (columns p * rows p) + 1)"
    by auto
  moreover have "int k * (columns p * rows p) div (columns p * rows p) = int k"
  proof -
    define C where "C = columns p * rows p"
    have "0 < C" using Cpos by (simp only: C_def)
    then have "C \<noteq> 0" by simp
    then have "int k * C div C = int k" by simp
    then show ?thesis by (simp only: C_def)
  qed
  ultimately show "snd (sheets ! k) = sheet_filename (int k + 1)" by (simp only:)
qed

lemma hundred_files:
  "crop_all \<lparr>crop_width = 144, crop_height = 144, columns = 1, rows = 1, max_width = 400,
              x_offset = 0\<rparr>
     (replicate 100 \<lparr>name = ''a.png'', content = Inr (Opened ''RGBA'' 300 300 None)\<rparr>) [] []
   = ([], replicate 100 (Cropped (Opened ''RGBA'' 300 300 None) 78 20 222 164))"
proof -
  have "process_file \<lparr>crop_width = 144, crop_height = 144, columns = 1, rows = 1,
            max_width = 400, x_offset = 0\<rparr>
          \<lparr>name = ''a.png'', content = Inr (Opened ''RGBA'' 300 300 None)\<rparr>
        = ([], Some (Cropped (Opened ''RGBA'' 300 300 None) 78 20 222 164))"
    by code_simp
  then show ?thesis by (simp only: crop_all_replicate append_Nil)
qed

text \<open>A hundred 300 \<times> 300 images, one tile per sheet, on a machine that can allocate a
  buffer of \<open>2 ^ 28\<close> pixels: a hundred sheets are returned.\<close>

lemma hundred_sheets:
  "\<exists>sheets.
     process_images (\<lambda>w h. w * h \<le> 2 ^ 28)
       \<lparr>crop_width = 144, crop_height = 144, columns = 1, rows = 1, max_width = 400,
          x_offset = 0\<rparr>
       (replicate 100 \<lparr>name = ''a.png'', content = Inr (Opened ''RGBA'' 300 300 None)\<rparr>)
       = ([], Inr sheets) \<and> length sheets = 100"
proof -
  let ?A = "\<lambda>w h :: int. w * h \<le> 2 ^ 28"
  let ?p = "\<lparr>crop_width = 144, crop_height = 144, columns = 1, rows = 1, max_width = 400,
              x_offset = 0\<rparr>"
  let ?fs = "replicate 100 \<lparr>name = ''a.png'', content = Inr (Opened ''RGBA'' 300 300 None)\<rparr>"
  let ?t = "Cropped (Opened ''RGBA'' 300 300 None) 78 20 222 164"
  have "\<exists>sheets. process_images ?A ?p ?fs = (fst (crop_all ?p ?fs [] []), Inr sheets)"
    by (rule process_images_ok[where alloc = ?A and p = ?p]) (simp_all add: INT_MAX_def)
  then obtain sheets where pi: "process_images ?A ?p ?fs = ([], Inr sheets)"
    unfolding hundred_files fst_conv by (elim exE) (rule that)
  have tiles: "replicate 100 ?t = snd (crop_all ?p ?fs [] [])" by (simp add: hundred_files)
  have "int (length sheets) = 100" using returned_sheets(2)[OF pi tiles] by simp
  then have "length sheets = 100" by simp
  then show ?thesis using pi by blast
qed

text \<open>
  C7, as stated, fails from the hundredth sheet on: with one tile per sheet, a hundred
  300 \<times> 300 images give a hundred sheets, and the last one is named with the
  three-digit suffix \<open>100\<close>.
\<close>

theorem sheet_name_counterexample:
  "snd (projr (snd (process_images (\<lambda>w h. w * h \<le> 2 ^ 28)
     \<lparr>crop_width = 144, crop_height = 144, columns = 1, rows = 1, max_width = 400, x_offset = 0\<rparr>
     (replicate 100 \<lparr>name = ''a.png'', content = Inr (Opened ''RGBA'' 300 300 None)\<rparr>))) ! 99)
   = ''Emo_sheet_100.png''"
proof -
  from hundred_sheets obtain sheets where
    pi: "process_images (\<lambda>w h. w * h \<le> 2 ^ 28)
       \<lparr>crop_width = 144, crop_height = 144, columns = 1, rows = 1, max_width = 400,
          x_offset = 0\<rparr>
       (replicate 100 \<lparr>name = ''a.png'', content = Inr (Opened ''RGBA'' 300 300 None)\<rparr>)
       = ([], Inr sheets)" and
    l: "length sheets = 100"
    by (elim exE conjE) (rule that)
  have "(99::nat) < length sheets" using l by simp
  then have "snd (sheets ! 99) = sheet_filename (int 99 + 1)"
    using returned_names[OF pi] by blast
  also have "\<dots> = ''Emo_sheet_100.png''"
    by (simp add: sheet_filename_def format_02d_def decimal.simps digit_char_def)
  finally show ?thesis unfolding pi by simp
qed

text \<open>
  C7, amended.  In every list of sheets that \<open>process_images\<close> returns, the first sheet is
  named \<open>Emo_sheet.png\<close>, and for every \<open>k \<ge> 2\<close> the \<open>k\<close>-th sheet in creation order is
  named \<open>Emo_sheet_\<close>, then the decimal digits of \<open>k\<close> padded with zeros on the left to at
  least two digits, then \<open>.png\<close>: exactly two digits for \<open>k < 100\<close>, the digits of \<open>k\<close>
  without a leading zero for \<open>k \<ge> 100\<close>.  (The sheet at index \<open>j\<close> of the result is the
  \<open>(j + 1)\<close>-th sheet.)
\<close>

theorem sheet_names:
  assumes "process_images alloc p files = (shown, Inr sheets)"
  shows "\<forall>j<length sheets.
           (j = 0 \<longrightarrow> snd (sheets ! j) = ''Emo_sheet.png'') \<and>
           (0 < j \<longrightarrow>
              (\<exists>s. snd (sheets ! j) = ''Emo_sheet_'' @ s @ ''.png'' \<and>
                   (\<forall>c\<in>set s. is_digit c) \<and>
                   decimal_value s = j + 1 \<and>
                   2 \<le> length s \<and>
                   (j + 1 < 100 \<longrightarrow> length s = 2) \<and>
                   (100 \<le> j + 1 \<longrightarrow> hd s \<noteq> CHR ''0'')))"
proof (intro allI impI conjI)
  fix j assume "j < length sheets" "j = 0"
  then show "snd (sheets ! j) = ''Emo_sheet.png''"
    using returned_names[OF assms] by (simp add: sheet_filename_def)
next
  fix j assume j: "j < length sheets" "0 < j"
  have n0: "0 \<le> int j + 1" by simp
  have nm: "snd (sheets ! j) = ''Emo_sheet_'' @ format_02d (int j + 1) @ ''.png''"
    using returned_names[OF assms] j by (simp add: sheet_filename_def)
  have "decimal_value (format_02d (int j + 1)) = j + 1"
    using format_02d_props(1)[OF n0] by (simp add: nat_add_distrib)
  moreover have "j + 1 < 100 \<longrightarrow> length (format_02d (int j + 1)) = 2"
    using format_02d_props(4)[OF n0] by simp
  moreover have "100 \<le> j + 1 \<longrightarrow> hd (format_02d (int j + 1)) \<noteq> CHR ''0''"
    using format_02d_props(5)[OF n0] by simp
  ultimately show "\<exists>s. snd (sheets ! j) = ''Emo_sheet_'' @ s @ ''.png'' \<and>
                    (\<forall>c\<in>set s. is_digit c) \<and>
                    decimal_value s = j + 1 \<and>
                    2 \<le> length s \<and>
                    (j + 1 < 100 \<longrightarrow> length s = 2) \<and>
                    (100 \<le> j + 1 \<longrightarrow> hd s \<noteq> CHR ''0'')"
    using nm format_02d_props(2,3)[OF n0] by blast
qed

text \<open>
  C10.  In every list of sheets that \<open>process_images\<close> returns, the names are pairwise
  distinct.
\<close>

theorem distinct_filenames:
  assumes "process_images alloc p files = (shown, Inr sheets)"
  shows "distinct (map snd sheets)"
proof (simp only: distinct_conv_nth length_map, intro allI impI)
  fix i j assume ij: "i < length sheets" "j < length sheets" "i \<noteq> j"
  have "sheet_filename (int i + 1) \<noteq> sheet_filename (int j + 1)"
  proof
    assume "sheet_filename (int i + 1) = sheet_filename (int j + 1)"
    then have "int i + 1 = int j + 1" by (rule sheet_filename_inj[rotated 2]) simp_all
    then show False using ij(3) by simp
  qed
  then show "map snd sheets ! i \<noteq> map snd sheets ! j"
    using returned_names[OF assms] ij by simp
qed

theorem sheet_names_witness:
  "\<exists>sheets.
      process_images (\<lambda>w h. w * h \<le> 2 ^ 28)
        \<lparr>crop_width = 144, crop_height = 144, columns = 1, rows = 1, max_width = 400,
           x_offset = 0\<rparr>
        (replicate 100 \<lparr>name = ''a.png'', content = Inr (Opened ''RGBA'' 300 300 None)\<rparr>)
        = ([], Inr sheets) \<and>
      length sheets = 100 \<and>
      snd (sheets ! 0) = ''Emo_sheet.png'' \<and>
      (\<exists>s. snd (sheets ! 1) = ''Emo_sheet_'' @ s @ ''.png'' \<and> (\<forall>c\<in>set s. is_digit c) \<and>
           decimal_value s = 2 \<and> length s = 2) \<and>
      (\<exists>s. snd (sheets ! 99) = ''Emo_sheet_'' @ s @ ''.png'' \<and> (\<forall>c\<in>set s. is_digit c) \<and>
           decimal_value s = 100 \<and> 2 \<le> length s \<and> hd s \<noteq> CHR ''0'')"
proof -
  from hundred_sheets obtain sheets where
    pi: "process_images (\<lambda>w h. w * h \<le> 2 ^ 28)
       \<lparr>crop_width = 144, crop_height = 144, columns = 1, rows = 1, max_width = 400,
          x_offset = 0\<rparr>
       (replicate 100 \<lparr>name = ''a.png'', content = Inr (Opened ''RGBA'' 300 300 None)\<rparr>)
       = ([], Inr sheets)" and
    l: "length sheets = 100"
    by (elim exE conjE) (rule that)
  note al = sheet_names[OF pi]
  have "(0::nat) < length sheets" using l by simp
  with al have a0: "snd (sheets ! 0) = ''Emo_sheet.png''" by blast
  have "(1::nat) < length sheets" using l by simp
  with al have a1: "\<exists>s. snd (sheets ! 1) = ''Emo_sheet_'' @ s @ ''.png'' \<and>
      (\<forall>c\<in>set s. is_digit c) \<and> decimal_value s = 2 \<and> length s = 2"
    by fastforce
  have "(99::nat) < length sheets" using l by simp
  with al have a99: "\<exists>s. snd (sheets ! 99) = ''Emo_sheet_'' @ s @ ''.png'' \<and>
      (\<forall>c\<in>set s. is_digit c) \<and> decimal_value s = 100 \<and> 2 \<le> length s \<and>
      hd s \<noteq> CHR ''0''"
    by fastforce
  show ?thesis using pi l a0 a1 a99 by (intro exI[of _ sheets] conjI)
qed

theorem distinct_filenames_witness:
  "process_images (\<lambda>w h. w * h \<le> 2 ^ 28) default_params
     (replicate 10 \<lparr>name = ''a.png'', content = Inr (Opened ''RGBA'' 300 300 None)\<rparr>)
   = ([], Inr [(paste_tiles default_params (New_image ''RGBA'' 576 288 (0, 0, 0, 0)) 0
                  (replicate 8 (Cropped (Opened ''RGBA'' 300 300 None) 78 20 222 164)),
                ''Emo_sheet.png''),
               (paste_tiles default_params (New_image ''RGBA'' 576 144 (0, 0, 0, 0)) 0
                  (replicate 2 (Cropped (Opened ''RGBA'' 300 300 None) 78 20 222 164)),
                ''Emo_sheet_02.png'')]) \<and>
   distinct (map snd
     [(paste_tiles default_params (New_image ''RGBA'' 576 288 (0, 0, 0, 0)) 0
         (replicate 8 (Cropped (Opened ''RGBA'' 300 300 None) 78 20 222 164)),
       ''Emo_sheet.png''),
      (paste_tiles default_params (New_image ''RGBA'' 576 144 (0, 0, 0, 0)) 0
         (replicate 2 (Cropped (Opened ''RGBA'' 300 300 None) 78 20 222 164)),
       ''Emo_sheet_02.png'')])"
  using ten_sheets distinct_filenames[OF ten_sheets] by (rule conjI)

end
